theory Spec2Isabelle
  imports Complex_Main "HOL-Library.Word" "HOL-Library.Log_Nat"
begin

section \<open>JavaScript numbers\<close>

text \<open>
  A JavaScript number is an IEEE 754 double: a finite binary fraction with a 53-bit
  significand, one of the two infinities, or \<^verbatim>\<open>NaN\<close>. A finite double is carried here as
  the real number it denotes. The two zeros are one value: the processor never divides by
  a zero it has computed, and the two compare equal. Every arithmetic operation gives the
  exact real result rounded to the nearest double, a tie going to the even significand; a
  result whose magnitude after rounding reaches \<open>2 ^ 1024\<close> is an infinity.
\<close>

datatype double = Fin real | PInf | NInf | NaN

text \<open>
  The binary exponent of a non-zero real: \<open>2 ^ e \<le> \<bar>x\<bar> < 2 ^ (e + 1)\<close>, computed from the bit
  length of the integer part of \<open>\<bar>x\<bar>\<close>, or of its reciprocal below 1.
\<close>

definition expo :: "real \<Rightarrow> int" where
  "expo x = (if 1 \<le> \<bar>x\<bar> then bitlen \<lfloor>\<bar>x\<bar>\<rfloor> - 1 else - bitlen (\<lceil>1 / \<bar>x\<bar>\<rceil> - 1))"

text \<open>The nearest integer, a tie going to the even one.\<close>

definition roundEven :: "real \<Rightarrow> int" where
  "roundEven r = (let f = \<lfloor>r\<rfloor>; d = r - of_int f in
     if d < 1 / 2 then f else if 1 / 2 < d then f + 1 else if even f then f else f + 1)"

text \<open>
  Rounding to a double. The spacing of the doubles around \<open>x\<close> is \<open>2 ^ (e - 52)\<close> for the
  exponent \<open>e\<close> of \<open>x\<close>, and \<open>2 ^ (- 1074)\<close> in the subnormal range.
\<close>

definition fl :: "real \<Rightarrow> double" where
  "fl x = (if x = 0 then Fin 0 else
     let e = max (expo x) (- 1022); q = 2 powi (e - 52); y = of_int (roundEven (x / q)) * q
     in if 2 powi 1024 \<le> \<bar>y\<bar> then (if 0 < x then PInf else NInf) else Fin y)"

text \<open>The operators \<^verbatim>\<open>+\<close>, \<^verbatim>\<open>-\<close>, \<^verbatim>\<open>*\<close>, \<^verbatim>\<open>/\<close> on numbers.\<close>

fun dadd :: "double \<Rightarrow> double \<Rightarrow> double" where
  "dadd (Fin x) (Fin y) = fl (x + y)"
| "dadd NaN b = NaN"
| "dadd a NaN = NaN"
| "dadd PInf NInf = NaN"
| "dadd NInf PInf = NaN"
| "dadd PInf b = PInf"
| "dadd a PInf = PInf"
| "dadd NInf b = NInf"
| "dadd a NInf = NInf"

fun dsub :: "double \<Rightarrow> double \<Rightarrow> double" where
  "dsub (Fin x) (Fin y) = fl (x - y)"
| "dsub NaN b = NaN"
| "dsub a NaN = NaN"
| "dsub PInf PInf = NaN"
| "dsub NInf NInf = NaN"
| "dsub PInf b = PInf"
| "dsub a PInf = NInf"
| "dsub NInf b = NInf"
| "dsub a NInf = PInf"

fun dmul :: "double \<Rightarrow> double \<Rightarrow> double" where
  "dmul (Fin x) (Fin y) = fl (x * y)"
| "dmul NaN b = NaN"
| "dmul a NaN = NaN"
| "dmul (Fin x) PInf = (if x = 0 then NaN else if 0 < x then PInf else NInf)"
| "dmul (Fin x) NInf = (if x = 0 then NaN else if 0 < x then NInf else PInf)"
| "dmul PInf (Fin y) = (if y = 0 then NaN else if 0 < y then PInf else NInf)"
| "dmul NInf (Fin y) = (if y = 0 then NaN else if 0 < y then NInf else PInf)"
| "dmul PInf PInf = PInf"
| "dmul PInf NInf = NInf"
| "dmul NInf PInf = NInf"
| "dmul NInf NInf = PInf"

fun ddiv :: "double \<Rightarrow> double \<Rightarrow> double" where
  "ddiv (Fin x) (Fin y) =
     (if y = 0 then (if x = 0 then NaN else if 0 < x then PInf else NInf) else fl (x / y))"
| "ddiv NaN b = NaN"
| "ddiv a NaN = NaN"
| "ddiv (Fin x) b = Fin 0"
| "ddiv PInf (Fin y) = (if 0 \<le> y then PInf else NInf)"
| "ddiv NInf (Fin y) = (if 0 \<le> y then NInf else PInf)"
| "ddiv a b = NaN"

text \<open>The comparisons \<^verbatim>\<open><=\<close> and \<^verbatim>\<open><\<close>; both are false when an operand is \<^verbatim>\<open>NaN\<close>.\<close>

fun dle :: "double \<Rightarrow> double \<Rightarrow> bool" where
  "dle (Fin x) (Fin y) = (x \<le> y)"
| "dle NaN b = False"
| "dle a NaN = False"
| "dle NInf b = True"
| "dle a PInf = True"
| "dle a b = False"

fun dlt :: "double \<Rightarrow> double \<Rightarrow> bool" where
  "dlt (Fin x) (Fin y) = (x < y)"
| "dlt NaN b = False"
| "dlt a NaN = False"
| "dlt PInf b = False"
| "dlt a NInf = False"
| "dlt a b = True"

text \<open>
  \<^verbatim>\<open>Math.max\<close> of two numbers, \<^verbatim>\<open>Math.sqrt\<close>, \<^verbatim>\<open>Math.pow\<close> with the exponent 2 and
  \<^verbatim>\<open>Math.round\<close>. The square root and the square are the correctly rounded ones, as the
  engines compute them; \<^verbatim>\<open>Math.round\<close> rounds to the nearest integer, a half upwards, and
  its result is a double because every double of magnitude \<open>2 ^ 52\<close> or more is an integer.
\<close>

definition mathMax :: "double \<Rightarrow> double \<Rightarrow> double" where
  "mathMax a b = (if a = NaN \<or> b = NaN then NaN else if dle a b then b else a)"

fun mathSqrt :: "double \<Rightarrow> double" where
  "mathSqrt (Fin x) = (if x < 0 then NaN else fl (sqrt x))"
| "mathSqrt PInf = PInf"
| "mathSqrt a = NaN"

definition mathPow2 :: "double \<Rightarrow> double" where
  "mathPow2 v = dmul v v"

fun mathRound :: "double \<Rightarrow> double" where
  "mathRound (Fin x) = Fin (of_int \<lfloor>x + 1 / 2\<rfloor>)"
| "mathRound a = a"

text \<open>The number that stands for an integer, when it is small enough to be a double.\<close>

definition numOfInt :: "int \<Rightarrow> double" where
  "numOfInt n = Fin (of_int n)"

section \<open>Data model\<close>

text \<open>
  The processor works on the browser's \<^verbatim>\<open>ImageData\<close>: a width, a height and a
  \<^verbatim>\<open>Uint8ClampedArray\<close> of interleaved R,G,B,A bytes. A byte is an 8-bit word, so that
  every element is in 0..255 by its type. The width and the height of an image, pixel
  indices and counters are non-negative integers far below \<open>2 ^ 53\<close>, where the arithmetic
  of doubles is the arithmetic of integers; they are natural numbers or integers here.
  The numbers that come from the settings (the grid geometry, the colour-key tolerance and
  feather) and the channels of a target colour are doubles.
  Record fields carry a prefix where the source's one-letter names (x, y, w, h, r, g, b)
  are wanted for variables.
\<close>

type_synonym byte = "8 word"

record imageData =
  width :: nat
  height :: nat
  data :: "byte list"

record colorRGB =
  colR :: double
  colG :: double
  colB :: double

text \<open>
  The interfaces \<^verbatim>\<open>Rect\<close>, \<^verbatim>\<open>FrameData\<close> and \<^verbatim>\<open>AppSettings\<close> of \<^verbatim>\<open>../types\<close>, whose
  declarations the sources carry at the end of \<^verbatim>\<open>run-production.bat\<close>. Every numeric
  field is declared \<^verbatim>\<open>number\<close>. The grid enumerator computes the coordinates of its
  rectangles from the grid settings with the arithmetic of doubles, so the grid settings
  and those rectangles hold doubles. The island detector and the frame extractor only
  compare and copy the numbers they are given, next to pixel coordinates and pixel counts,
  which are integers; their rectangles and the minimum island sizes hold integers. The
  record of a rectangle takes the kind of number as a parameter. The fields \<^verbatim>\<open>mode\<close> and
  \<^verbatim>\<open>export\<close> of the settings are not read by the processor and are left out.
\<close>

record 'n rect =
  rectId :: string
  rectX :: 'n
  rectY :: 'n
  rectW :: 'n
  rectH :: 'n

record gridSettings =
  width :: double
  height :: double
  marginX :: double
  marginY :: double
  spacingX :: double
  spacingY :: double

record islandSettings =
  minWidth :: int
  minHeight :: int

record processingSettings =
  autoTrim :: bool
  colorKeyEnabled :: bool
  colorKeyColors :: "string list"
  colorKeyTolerance :: double
  colorKeyFeather :: double

record appSettings =
  grid :: gridSettings
  islands :: islandSettings
  processing :: processingSettings

type_synonym blob = "byte list"

record frameData =
  frameId :: string
  frameBlob :: blob
  frameUrl :: string
  frameRect :: "int rect"
  trimOffset :: "int \<times> int"
  trimmedSize :: "int \<times> int"
  originalSize :: "int \<times> int"

text \<open>The object returned by \<^verbatim>\<open>getTrimmedBounds\<close>: \<^verbatim>\<open>{x, y, w, h}\<close>.\<close>

record bounds =
  boundsX :: int
  boundsY :: int
  boundsW :: int
  boundsH :: int

section \<open>hexToRgb\<close>

text \<open>
  The character class \<^verbatim>\<open>[a-f\d]\<close> under the \<^verbatim>\<open>i\<close> flag, by code point: the range
  a..f, its upper-case counterpart A..F, and the ASCII digits.
\<close>

definition hexClass :: "char \<Rightarrow> bool" where
  "hexClass c =
     (let n = (of_char c :: nat)
      in (97 \<le> n \<and> n \<le> 102) \<or> (65 \<le> n \<and> n \<le> 70) \<or> (48 \<le> n \<and> n \<le> 57))"

text \<open>
  The part of the regular expression after the optional hash sign: three groups of two
  characters of the class, then the end of the input.
\<close>

fun matchGroups :: "string \<Rightarrow> (string \<times> string \<times> string) option" where
  "matchGroups [c1, c2, c3, c4, c5, c6] =
     (if hexClass c1 \<and> hexClass c2 \<and> hexClass c3 \<and> hexClass c4 \<and> hexClass c5 \<and> hexClass c6
      then Some ([c1, c2], [c3, c4], [c5, c6]) else None)"
| "matchGroups _ = None"

text \<open>
  \<^verbatim>\<open>/^#?([a-f\d]{2})([a-f\d]{2})([a-f\d]{2})$/i.exec(hex)\<close>: the optional hash sign is
  greedy, and the matcher backtracks to the reading without it when the rest fails.
\<close>

definition hexExec :: "string \<Rightarrow> (string \<times> string \<times> string) option" where
  "hexExec hex =
     (case hex of
        [] \<Rightarrow> matchGroups hex
      | c # rest \<Rightarrow>
          if c = CHR ''#''
          then (case matchGroups rest of Some m \<Rightarrow> Some m | None \<Rightarrow> matchGroups hex)
          else matchGroups hex)"

definition hexDigitValue :: "char \<Rightarrow> nat" where
  "hexDigitValue c =
     (let n = (of_char c :: nat)
      in if 97 \<le> n \<and> n \<le> 102 then n - 87
         else if 65 \<le> n \<and> n \<le> 70 then n - 55
         else n - 48)"

text \<open>
  \<^verbatim>\<open>parseInt(s, 16)\<close> on a string that starts with neither white space, a sign nor
  \<^verbatim>\<open>0x\<close> (the regular expression passes two characters of the class only): the longest
  prefix of hexadecimal digits is read; \<^verbatim>\<open>NaN\<close>, here \<open>None\<close>, when it is empty.
\<close>

definition parseInt16 :: "string \<Rightarrow> nat option" where
  "parseInt16 s =
     (let ds = takeWhile hexClass s
      in if ds = [] then None
         else Some (foldl (\<lambda>acc c. 16 * acc + hexDigitValue c) 0 ds))"

definition hexToRgb :: "string \<Rightarrow> colorRGB option" where
  "hexToRgb hex =
     (case hexExec hex of
        None \<Rightarrow> None
      | Some (s1, s2, s3) \<Rightarrow>
          (case (parseInt16 s1, parseInt16 s2, parseInt16 s3) of
             (Some v1, Some v2, Some v3) \<Rightarrow>
               Some \<lparr>colR = Fin (real v1), colG = Fin (real v2), colB = Fin (real v3)\<rparr>
           | _ \<Rightarrow> None))"

text \<open>
  The specification's wording of the accepted inputs, for comparison with the regular
  expression: an optional leading hash sign followed by exactly six hexadecimal digits of
  either case.
\<close>

definition isHexDigit :: "char \<Rightarrow> bool" where
  "isHexDigit c = (c \<in> set ''0123456789abcdefABCDEF'')"

definition sixHexDigits :: "string \<Rightarrow> bool" where
  "sixHexDigits ds = (length ds = 6 \<and> (\<forall>c \<in> set ds. isHexDigit c))"

definition wellFormedHex :: "string \<Rightarrow> bool" where
  "wellFormedHex s =
     (sixHexDigits s \<or> (case s of [] \<Rightarrow> False | c # ds \<Rightarrow> c = CHR ''#'' \<and> sixHexDigits ds))"

section \<open>calculateGridRects\<close>

definition digitChar :: "nat \<Rightarrow> char" where
  "digitChar n = ''0123456789'' ! n"

text \<open>The decimal numeral a template literal prints for a non-negative integer counter.\<close>

fun showNat :: "nat \<Rightarrow> string" where
  "showNat n = (if n < 10 then [digitChar n] else showNat (n div 10) @ [digitChar (n mod 10)])"

text \<open>
  The inner loop \<^verbatim>\<open>while (x + width <= imgWidth)\<close>. Its state is the rectangle list,
  the cursor \<open>x\<close> and the id counter. The cursor is a double, and \<^verbatim>\<open>x += width + spacingX\<close>
  rounds. Nothing bounds the number of iterations when the step does not move the cursor,
  so the loop is a partial function: \<open>None\<close> is a run that never leaves the loop.
\<close>

partial_function (option) gridRow ::
  "double \<Rightarrow> gridSettings \<Rightarrow> double \<Rightarrow> double rect list \<Rightarrow> double \<Rightarrow> nat
     \<Rightarrow> (double rect list \<times> double \<times> nat) option" where
  "gridRow imgWidth g y rects x idCounter =
     (if dle (dadd x (gridSettings.width g)) imgWidth
      then gridRow imgWidth g y
             (rects @ [\<lparr>rectId = ''grid-'' @ showNat idCounter, rectX = x, rectY = y,
                        rectW = gridSettings.width g, rectH = gridSettings.height g\<rparr>])
             (dadd x (dadd (gridSettings.width g) (spacingX g))) (Suc idCounter)
      else Some (rects, x, idCounter))"

text \<open>The outer loop \<^verbatim>\<open>while (y + height <= imgHeight)\<close>.\<close>

partial_function (option) gridRows ::
  "double \<Rightarrow> double \<Rightarrow> gridSettings \<Rightarrow> double rect list \<Rightarrow> double \<Rightarrow> double \<Rightarrow> nat
     \<Rightarrow> double rect list option" where
  "gridRows imgWidth imgHeight g rects x y idCounter =
     (if dle (dadd y (gridSettings.height g)) imgHeight
      then (case gridRow imgWidth g y rects x idCounter of
              None \<Rightarrow> None
            | Some (rects', x', idCounter') \<Rightarrow>
                gridRows imgWidth imgHeight g rects' (marginX g)
                  (dadd y (dadd (gridSettings.height g) (spacingY g))) idCounter')
      else Some rects)"

definition calculateGridRects :: "double \<Rightarrow> double \<Rightarrow> gridSettings \<Rightarrow> double rect list option" where
  "calculateGridRects imgWidth imgHeight g =
     (if dle (gridSettings.width g) (Fin 0) \<or> dle (gridSettings.height g) (Fin 0) then Some []
      else gridRows imgWidth imgHeight g [] (marginX g) (marginY g) 0)"

text \<open>
  Shorthand for the statements about the loops: a cell, and the cells of one row that
  starts at the integer \<open>x\<close> and advances by the integer \<open>s\<close>.
\<close>

abbreviation gridCell :: "gridSettings \<Rightarrow> nat \<Rightarrow> double \<Rightarrow> double \<Rightarrow> double rect" where
  "gridCell g idc x y \<equiv>
     \<lparr>rectId = ''grid-'' @ showNat idc, rectX = x, rectY = y,
      rectW = gridSettings.width g, rectH = gridSettings.height g\<rparr>"

abbreviation gridRowCells :: "gridSettings \<Rightarrow> nat \<Rightarrow> nat \<Rightarrow> int \<Rightarrow> int \<Rightarrow> double \<Rightarrow> double rect list" where
  "gridRowCells g n idc x s y \<equiv>
     map (\<lambda>k. gridCell g (idc + k) (numOfInt (x + int k * s)) y) [0..<n]"

section \<open>Colour keying\<close>

text \<open>
  A byte read from the buffer is a number. A store into a \<^verbatim>\<open>Uint8ClampedArray\<close> clamps
  the number to 0..255 and rounds it to the nearest integer, a tie going to the even one;
  \<^verbatim>\<open>NaN\<close> is stored as 0.
\<close>

definition numOfByte :: "byte \<Rightarrow> double" where
  "numOfByte b = Fin (real (unat b))"

fun toUint8Clamped :: "double \<Rightarrow> byte" where
  "toUint8Clamped (Fin x) = word_of_int (roundEven (max 0 (min 255 x)))"
| "toUint8Clamped PInf = 255"
| "toUint8Clamped a = 0"

definition distSq :: "colorRGB \<Rightarrow> byte \<Rightarrow> byte \<Rightarrow> byte \<Rightarrow> double" where
  "distSq targetColor r g b =
     dadd (dadd (mathPow2 (dsub (numOfByte r) (colR targetColor)))
                (mathPow2 (dsub (numOfByte g) (colG targetColor))))
          (mathPow2 (dsub (numOfByte b) (colB targetColor)))"

text \<open>
  The body of the loop: the value of \<^verbatim>\<open>data[i+3]\<close> after the iteration that reads the
  pixel \<open>r, g, b, a\<close>.
\<close>

definition keyAlpha :: "colorRGB \<Rightarrow> double \<Rightarrow> double \<Rightarrow> byte \<Rightarrow> byte \<Rightarrow> byte \<Rightarrow> byte \<Rightarrow> byte" where
  "keyAlpha targetColor tol featherPx r g b a =
     (let tolSq = dmul tol tol;
          featherSq = dmul (dadd tol featherPx) (dadd tol featherPx);
          d = distSq targetColor r g b
      in if dle d tolSq then 0
         else if dlt (Fin 0) featherPx \<and> dle d featherSq
         then (let dist = mathSqrt d; t = ddiv (dsub dist tol) featherPx
               in toUint8Clamped (mathRound (dmul (numOfByte a) t)))
         else a)"

text \<open>
  \<^verbatim>\<open>for (let i = 0; i < data.length; i += 4)\<close>. An \<^verbatim>\<open>ImageData\<close> buffer has a length
  that is a multiple of four. On any other length the last iteration would read
  \<^verbatim>\<open>undefined\<close> or store out of range, which changes nothing; the guard
  \<open>i + 3 < length d\<close> writes that out.
\<close>

function keyLoop :: "colorRGB \<Rightarrow> double \<Rightarrow> double \<Rightarrow> nat \<Rightarrow> byte list \<Rightarrow> byte list" where
  "keyLoop targetColor tol featherPx i d =
     (if i < length d
      then keyLoop targetColor tol featherPx (i + 4)
             (if i + 3 < length d
              then d[i + 3 := keyAlpha targetColor tol featherPx
                                (d ! i) (d ! (i + 1)) (d ! (i + 2)) (d ! (i + 3))]
              else d)
      else d)"
  by pat_completeness auto
termination
  by (relation "measure (\<lambda>(targetColor, tol, featherPx, i, d). length d - i)") auto

definition applyColorKeyToImageData ::
  "imageData \<Rightarrow> colorRGB \<Rightarrow> double \<Rightarrow> double \<Rightarrow> imageData" where
  "applyColorKeyToImageData im targetColor tolerance feather =
     (let tol = mathMax (Fin 0) tolerance; featherPx = mathMax (Fin 0) feather
      in im\<lparr>data := keyLoop targetColor tol featherPx 0 (data im)\<rparr>)"

definition applyColorKeysToImageData ::
  "imageData \<Rightarrow> colorRGB list \<Rightarrow> double \<Rightarrow> double \<Rightarrow> imageData" where
  "applyColorKeysToImageData im targetColors tolerance feather =
     (if targetColors = [] then im
      else fold (\<lambda>color im'. applyColorKeyToImageData im' color tolerance feather)
             targetColors im)"

text \<open>
  The feather band of a target colour, as the loop tests it: the squared distance is not
  within the squared tolerance, the feather is positive, and the squared distance is at most
  the square of tolerance plus feather.
\<close>

definition inFeatherBand :: "colorRGB \<Rightarrow> double \<Rightarrow> double \<Rightarrow> byte \<Rightarrow> byte \<Rightarrow> byte \<Rightarrow> bool" where
  "inFeatherBand targetColor tolerance feather r g b =
     (let tol = mathMax (Fin 0) tolerance; featherPx = mathMax (Fin 0) feather;
          d = distSq targetColor r g b
      in \<not> dle d (dmul tol tol) \<and> dlt (Fin 0) featherPx \<and>
         dle d (dmul (dadd tol featherPx) (dadd tol featherPx)))"

section \<open>getTrimmedBounds\<close>

text \<open>
  One pixel of the scan. A read past the end of the array is \<^verbatim>\<open>undefined\<close>, and
  \<^verbatim>\<open>undefined > 0\<close> is false.
\<close>

definition boundsStep ::
  "imageData \<Rightarrow> nat \<Rightarrow> nat \<Rightarrow> int \<times> int \<times> int \<times> int \<Rightarrow> int \<times> int \<times> int \<times> int" where
  "boundsStep im y x s =
     (case s of (minX, minY, maxX, maxY) \<Rightarrow>
        let k = (y * imageData.width im + x) * 4 + 3
        in if k < length (data im) \<and> data im ! k > 0
           then (if int x < minX then int x else minX,
                 if int y < minY then int y else minY,
                 if int x > maxX then int x else maxX,
                 if int y > maxY then int y else maxY)
           else s)"

definition getTrimmedBounds :: "imageData \<Rightarrow> bounds option" where
  "getTrimmedBounds im =
     (case fold (\<lambda>y. fold (\<lambda>x. boundsStep im y x) [0..<imageData.width im])
             [0..<imageData.height im]
             (int (imageData.width im), int (imageData.height im), - 1, - 1) of
        (minX, minY, maxX, maxY) \<Rightarrow>
          if maxX = - 1 then None
          else Some \<lparr>boundsX = minX, boundsY = minY,
                     boundsW = maxX - minX + 1, boundsH = maxY - minY + 1\<rparr>)"

section \<open>detectIslands\<close>

text \<open>
  \<^verbatim>\<open>data[idx * 4 + 3] === 0\<close>; a read past the end is \<^verbatim>\<open>undefined\<close>, which is not
  \<^verbatim>\<open>0\<close>.
\<close>

definition isTransparent :: "byte list \<Rightarrow> nat \<Rightarrow> bool" where
  "isTransparent d idx = (idx * 4 + 3 < length d \<and> d ! (idx * 4 + 3) = 0)"

text \<open>The four neighbour candidates of \<open>cur\<close>: up, down, left, right; \<open>- 1\<close> at a row end.\<close>

definition neighbors :: "nat \<Rightarrow> nat \<Rightarrow> int list" where
  "neighbors w cur =
     (let cx = cur mod w
      in [int cur - int w,
          int cur + int w,
          if cx > 0 then int cur - 1 else - 1,
          if int cx < int w - 1 then int cur + 1 else - 1])"

text \<open>
  The body of \<^verbatim>\<open>for (const n of neighbors)\<close>. The stack is a list whose head is the
  top: \<^verbatim>\<open>push\<close> conses, \<^verbatim>\<open>pop\<close> takes the head.
\<close>

definition visitNeighbor :: "byte list \<Rightarrow> int \<Rightarrow> nat list \<times> bool list \<Rightarrow> nat list \<times> bool list" where
  "visitNeighbor d n s =
     (case s of (stack, visited) \<Rightarrow>
        if n \<ge> 0 \<and> n < int (length visited) \<and> \<not> visited ! nat n \<and> \<not> isTransparent d (nat n)
        then (nat n # stack, visited[nat n := True])
        else (stack, visited))"

text \<open>
  \<^verbatim>\<open>while (stack.length > 0)\<close>: the flood fill of one island. The state is the stack,
  the visited array and the running box \<open>(minX, maxX, minY, maxY)\<close>.
\<close>

function floodFill ::
  "nat \<Rightarrow> byte list \<Rightarrow> nat list \<Rightarrow> bool list \<Rightarrow> int \<times> int \<times> int \<times> int
     \<Rightarrow> bool list \<times> int \<times> int \<times> int \<times> int" where
  "floodFill w d [] visited box = (visited, box)"
| "floodFill w d (cur # stack) visited box =
     (case box of (minX, maxX, minY, maxY) \<Rightarrow>
        let cy = int (cur div w);
            cx = int (cur mod w);
            box' = (if cx < minX then cx else minX,
                    if cx > maxX then cx else maxX,
                    if cy < minY then cy else minY,
                    if cy > maxY then cy else maxY);
            s' = fold (visitNeighbor d) (neighbors w cur) (stack, visited)
        in floodFill w d (fst s') (snd s') box')"
  by pat_completeness auto
termination
proof -
  let ?m = "\<lambda>s :: nat list \<times> bool list. 2 * length (filter Not (snd s)) + length (fst s)"
  have upd: "Suc (length (filter Not (xs[i := True]))) = length (filter Not xs)"
    if "i < length xs" "\<not> xs ! i" for xs :: "bool list" and i
    using that
  proof (induction xs arbitrary: i)
    case Nil
    then show ?case by simp
  next
    case (Cons b xs)
    then show ?case by (cases i) auto
  qed
  have one: "?m (visitNeighbor d n s) \<le> ?m s" for d n s
  proof (cases s)
    case (Pair stack visited)
    show ?thesis
    proof (cases "n \<ge> 0 \<and> n < int (length visited) \<and> \<not> visited ! nat n
                  \<and> \<not> isTransparent d (nat n)")
      case True
      then have "nat n < length visited" by linarith
      from upd[OF this] True
      have "Suc (length (filter Not (visited[nat n := True]))) = length (filter Not visited)"
        by simp
      then show ?thesis using True by (simp add: visitNeighbor_def Pair)
    next
      case False
      then show ?thesis by (auto simp: visitNeighbor_def Pair)
    qed
  qed
  have all: "?m (fold (visitNeighbor d) ns s) \<le> ?m s" for d ns s
  proof (induction ns arbitrary: s)
    case Nil
    then show ?case by simp
  next
    case (Cons n ns)
    have "?m (fold (visitNeighbor d) ns (visitNeighbor d n s)) \<le> ?m (visitNeighbor d n s)"
      by (rule Cons.IH)
    also have "\<dots> \<le> ?m s" by (rule one)
    finally show ?case by simp
  qed
  show ?thesis
  proof (relation "measure (\<lambda>(w, d, stack, visited, box).
                     2 * length (filter Not visited) + length stack)", goal_cases)
    case 1
    then show ?case by simp
  next
    case (2 w d cur stack visited box minX x2 maxX x3 minY maxY cy cx box' s')
    then show ?case
      using all[of d "neighbors w cur" "(stack, visited)"] by (simp add: case_prod_unfold)
  qed
qed

text \<open>One position of the row-major scan; the state is the visited array, the list of rectangles and the id counter.\<close>

definition islandStep ::
  "imageData \<Rightarrow> int \<Rightarrow> int \<Rightarrow> nat \<Rightarrow> nat \<Rightarrow> bool list \<times> int rect list \<times> nat
     \<Rightarrow> bool list \<times> int rect list \<times> nat" where
  "islandStep im minW minH y x s =
     (case s of (visited, rects, idCounter) \<Rightarrow>
        let idx = y * imageData.width im + x
        in if visited ! idx \<or> isTransparent (data im) idx then s
           else
             (case floodFill (imageData.width im) (data im) [idx] (visited[idx := True])
                     (int x, int x, int y, int y) of
                (visited', minX, maxX, minY, maxY) \<Rightarrow>
                  let w = maxX - minX + 1;
                      h = maxY - minY + 1
                  in if w \<ge> minW \<and> h \<ge> minH
                     then (visited',
                           rects @ [\<lparr>rectId = ''island-'' @ showNat idCounter,
                                      rectX = minX, rectY = minY, rectW = w, rectH = h\<rparr>],
                           Suc idCounter)
                     else (visited', rects, idCounter)))"

definition detectIslands :: "imageData \<Rightarrow> int \<Rightarrow> int \<Rightarrow> int rect list" where
  "detectIslands im minW minH =
     (case fold (\<lambda>y. fold (\<lambda>x. islandStep im minW minH y x) [0..<imageData.width im])
             [0..<imageData.height im]
             (replicate (imageData.width im * imageData.height im) False, [], 0) of
        (visited, rects, idCounter) \<Rightarrow> rects)"

section \<open>The typed arrays as mutable storage\<close>

text \<open>
  \<^verbatim>\<open>getTrimmedBounds\<close> and \<^verbatim>\<open>detectIslands\<close> are handed a reference to the pixel array,
  and \<^verbatim>\<open>detectIslands\<close> allocates and writes an array of its own. To say what these two
  leave in storage, the arrays live in a heap: the list of all typed arrays allocated so
  far, an array's address being its position. \<^verbatim>\<open>new Uint8Array(n)\<close> appends an array of
  \<open>n\<close> zeros. A read past the end of an array is \<^verbatim>\<open>undefined\<close>, here \<open>None\<close>; a write
  past the end is ignored. An \<^verbatim>\<open>ImageData\<close> object holds the address of its array.
\<close>

type_synonym heap = "byte list list"

definition alloc :: "heap \<Rightarrow> nat \<Rightarrow> nat \<times> heap" where
  "alloc h n = (length h, h @ [replicate n 0])"

definition arrayLength :: "heap \<Rightarrow> nat \<Rightarrow> nat" where
  "arrayLength h a = (if a < length h then length (h ! a) else 0)"

definition readAt :: "heap \<Rightarrow> nat \<Rightarrow> nat \<Rightarrow> byte option" where
  "readAt h a i = (if i < arrayLength h a then Some (h ! a ! i) else None)"

definition writeAt :: "heap \<Rightarrow> nat \<Rightarrow> nat \<Rightarrow> byte \<Rightarrow> heap" where
  "writeAt h a i v = (if i < arrayLength h a then h[a := (h ! a)[i := v]] else h)"

record imageRef =
  refWidth :: nat
  refHeight :: nat
  refData :: nat

text \<open>The image a reference denotes in a heap.\<close>

definition imageAt :: "heap \<Rightarrow> imageRef \<Rightarrow> imageData" where
  "imageAt h ref =
     \<lparr>imageData.width = refWidth ref, imageData.height = refHeight ref, data = h ! refData ref\<rparr>"

text \<open>
  \<^verbatim>\<open>getTrimmedBounds\<close>, statement by statement, on the heap: the state of the scan is
  the heap and the four running extremes.
\<close>

definition boundsStepH ::
  "imageRef \<Rightarrow> nat \<Rightarrow> nat \<Rightarrow> heap \<times> int \<times> int \<times> int \<times> int \<Rightarrow> heap \<times> int \<times> int \<times> int \<times> int" where
  "boundsStepH ref y x s =
     (case s of (h, minX, minY, maxX, maxY) \<Rightarrow>
        (case readAt h (refData ref) ((y * refWidth ref + x) * 4 + 3) of
           None \<Rightarrow> s
         | Some alpha \<Rightarrow>
             if alpha > 0
             then (h, if int x < minX then int x else minX,
                      if int y < minY then int y else minY,
                      if int x > maxX then int x else maxX,
                      if int y > maxY then int y else maxY)
             else s))"

definition getTrimmedBoundsH :: "heap \<Rightarrow> imageRef \<Rightarrow> bounds option \<times> heap" where
  "getTrimmedBoundsH h ref =
     (case fold (\<lambda>y. fold (\<lambda>x. boundsStepH ref y x) [0..<refWidth ref])
             [0..<refHeight ref]
             (h, int (refWidth ref), int (refHeight ref), - 1, - 1) of
        (h', minX, minY, maxX, maxY) \<Rightarrow>
          (if maxX = - 1 then None
           else Some \<lparr>boundsX = minX, boundsY = minY,
                      boundsW = maxX - minX + 1, boundsH = maxY - minY + 1\<rparr>,
           h'))"

text \<open>
  \<^verbatim>\<open>detectIslands\<close> on the heap. \<open>d\<close> is the address of the pixel array and \<open>v\<close> the
  address of \<^verbatim>\<open>visited\<close>. The body of \<^verbatim>\<open>for (const n of neighbors)\<close> stores
  \<^verbatim>\<open>visited[n] = 1\<close> and pushes.
\<close>

definition visitNeighborH :: "nat \<Rightarrow> nat \<Rightarrow> int \<Rightarrow> nat list \<times> heap \<Rightarrow> nat list \<times> heap" where
  "visitNeighborH d v n s =
     (case s of (stack, h) \<Rightarrow>
        if n \<ge> 0 \<and> n < int (arrayLength h v) \<and> readAt h v (nat n) = Some 0
           \<and> readAt h d (nat n * 4 + 3) \<noteq> Some 0
        then (nat n # stack, writeAt h v (nat n) 1)
        else (stack, h))"

text \<open>The number of elements of an array that are still zero.\<close>

definition zeros :: "heap \<Rightarrow> nat \<Rightarrow> nat" where
  "zeros h a = (if a < length h then length (filter (\<lambda>b. b = 0) (h ! a)) else 0)"

function floodFillH ::
  "nat \<Rightarrow> nat \<Rightarrow> nat \<Rightarrow> nat list \<Rightarrow> heap \<Rightarrow> int \<times> int \<times> int \<times> int
     \<Rightarrow> heap \<times> int \<times> int \<times> int \<times> int" where
  "floodFillH w d v [] h box = (h, box)"
| "floodFillH w d v (cur # stack) h box =
     (case box of (minX, maxX, minY, maxY) \<Rightarrow>
        let cy = int (cur div w);
            cx = int (cur mod w);
            box' = (if cx < minX then cx else minX,
                    if cx > maxX then cx else maxX,
                    if cy < minY then cy else minY,
                    if cy > maxY then cy else maxY);
            s' = fold (visitNeighborH d v) (neighbors w cur) (stack, h)
        in floodFillH w d v (fst s') (snd s') box')"
  by pat_completeness auto
termination
proof -
  let ?m = "\<lambda>v (s :: nat list \<times> heap). 2 * zeros (snd s) v + length (fst s)"
  have upd: "Suc (length (filter (\<lambda>b. b = 0) (xs[i := 1]))) = length (filter (\<lambda>b. b = 0) xs)"
    if "i < length xs" "xs ! i = 0" for xs :: "byte list" and i
    using that
  proof (induction xs arbitrary: i)
    case Nil
    then show ?case by simp
  next
    case (Cons b xs)
    then show ?case by (cases i) auto
  qed
  have one: "?m v (visitNeighborH d v n s) \<le> ?m v s" for d v n s
  proof (cases s)
    case (Pair stack h)
    show ?thesis
    proof (cases "n \<ge> 0 \<and> n < int (arrayLength h v) \<and> readAt h v (nat n) = Some 0
                  \<and> readAt h d (nat n * 4 + 3) \<noteq> Some 0")
      case True
      then have i: "nat n < arrayLength h v" by linarith
      then have v: "v < length h" and l: "nat n < length (h ! v)"
        by (simp_all add: arrayLength_def split: if_splits)
      have z: "h ! v ! nat n = 0" using True i by (simp add: readAt_def)
      have "zeros (writeAt h v (nat n) 1) v = length (filter (\<lambda>b. b = 0) ((h ! v)[nat n := 1]))"
        using i v by (simp add: writeAt_def zeros_def)
      moreover have "zeros h v = length (filter (\<lambda>b. b = 0) (h ! v))"
        using v by (simp add: zeros_def)
      ultimately have "Suc (zeros (writeAt h v (nat n) 1) v) = zeros h v"
        using upd[OF l z] by simp
      then show ?thesis using True by (simp add: visitNeighborH_def Pair)
    next
      case False
      then show ?thesis by (auto simp: visitNeighborH_def Pair)
    qed
  qed
  have all: "?m v (fold (visitNeighborH d v) ns s) \<le> ?m v s" for d v ns s
  proof (induction ns arbitrary: s)
    case Nil
    then show ?case by simp
  next
    case (Cons n ns)
    have "?m v (fold (visitNeighborH d v) ns (visitNeighborH d v n s)) \<le> ?m v (visitNeighborH d v n s)"
      by (rule Cons.IH)
    also have "\<dots> \<le> ?m v s" by (rule one)
    finally show ?case by simp
  qed
  show ?thesis
  proof (relation "measure (\<lambda>(w, d, v, stack, h, box). 2 * zeros h v + length stack)", goal_cases)
    case 1
    then show ?case by simp
  next
    case (2 w d v cur stack h box minX x2 maxX x3 minY maxY cy cx box' s')
    then show ?case
      using all[where v = v and d = d and ns = "neighbors w cur" and s = "(stack, h)"]
      by (simp add: case_prod_unfold)
  qed
qed

text \<open>
  One position of the row-major scan; the state is the heap, the list of rectangles and
  the id counter.
\<close>

definition islandStepH ::
  "imageRef \<Rightarrow> nat \<Rightarrow> int \<Rightarrow> int \<Rightarrow> nat \<Rightarrow> nat \<Rightarrow> heap \<times> int rect list \<times> nat
     \<Rightarrow> heap \<times> int rect list \<times> nat" where
  "islandStepH ref v minW minH y x s =
     (case s of (h, rects, idCounter) \<Rightarrow>
        let idx = y * refWidth ref + x
        in if (case readAt h v idx of None \<Rightarrow> False | Some b \<Rightarrow> b \<noteq> 0)
              \<or> readAt h (refData ref) (idx * 4 + 3) = Some 0 then s
           else
             (case floodFillH (refWidth ref) (refData ref) v [idx] (writeAt h v idx 1)
                     (int x, int x, int y, int y) of
                (h', minX, maxX, minY, maxY) \<Rightarrow>
                  let w = maxX - minX + 1;
                      h = maxY - minY + 1
                  in if w \<ge> minW \<and> h \<ge> minH
                     then (h',
                           rects @ [\<lparr>rectId = ''island-'' @ showNat idCounter,
                                      rectX = minX, rectY = minY, rectW = w, rectH = h\<rparr>],
                           Suc idCounter)
                     else (h', rects, idCounter)))"

definition detectIslandsH :: "heap \<Rightarrow> imageRef \<Rightarrow> int \<Rightarrow> int \<Rightarrow> int rect list \<times> heap" where
  "detectIslandsH h ref minW minH =
     (case alloc h (refWidth ref * refHeight ref) of
        (v, h0) \<Rightarrow>
          (case fold (\<lambda>y. fold (\<lambda>x. islandStepH ref v minW minH y x) [0..<refWidth ref])
                  [0..<refHeight ref] (h0, [], 0) of
             (h', rects, idCounter) \<Rightarrow> (rects, h')))"

section \<open>extractFrame\<close>

text \<open>
  The canvas, the source image and the PNG encoder belong to the browser. What they
  answer is taken as a parameter:
  whether \<^verbatim>\<open>getContext('2d')\<close> gives a context on the two canvases, the pixels that
  \<^verbatim>\<open>getImageData\<close> reads back after \<^verbatim>\<open>drawImage\<close> has drawn the rectangle (or the
  exception one of the two throws), the blob \<^verbatim>\<open>toBlob\<close> hands to its callback for a
  canvas holding given pixels (\<open>None\<close> is \<^verbatim>\<open>null\<close>), and the URL made for a blob.
\<close>

datatype domError = DOMException

record canvasApi =
  getContext2d :: bool
  drawAndGetImageData :: "int rect \<Rightarrow> domError + imageData"
  trimmedGetContext2d :: bool
  toBlob :: "imageData \<Rightarrow> blob option"
  createObjectURL :: "blob \<Rightarrow> string"

text \<open>
  The pixels of the trimmed canvas after \<^verbatim>\<open>putImageData(imageData, -bounds.x, -bounds.y)\<close>:
  the canvas is \<open>bounds.w\<close> by \<open>bounds.h\<close>, and its pixel \<open>(x, y)\<close> is the pixel
  \<open>(bounds.x + x, bounds.y + y)\<close> of the image.
\<close>

definition cropImage :: "imageData \<Rightarrow> bounds \<Rightarrow> imageData" where
  "cropImage im bnd =
     \<lparr>imageData.width = nat (boundsW bnd), imageData.height = nat (boundsH bnd),
      data = concat (map (\<lambda>y. concat (map (\<lambda>x.
                take 4 (drop (((nat (boundsY bnd) + y) * imageData.width im
                               + (nat (boundsX bnd) + x)) * 4) (data im)))
              [0..<nat (boundsW bnd)])) [0..<nat (boundsH bnd)])\<rparr>"

text \<open>Step 2 of \<^verbatim>\<open>extractFrame\<close>: the buffer after the colour keys, when they are enabled.\<close>

definition keyedImage :: "processingSettings \<Rightarrow> imageData \<Rightarrow> imageData" where
  "keyedImage p im =
     (if colorKeyEnabled p
      then (let rgbs = List.map_filter hexToRgb (colorKeyColors p)
            in if length rgbs > 0
               then applyColorKeysToImageData im rgbs (colorKeyTolerance p) (colorKeyFeather p)
               else im)
      else im)"

text \<open>
  The result is \<open>Inl\<close> when a canvas call throws (the promise rejects), \<open>Inr None\<close> for
  \<^verbatim>\<open>null\<close>, and \<open>Inr (Some frame)\<close> for a frame.
\<close>

definition extractFrame :: "canvasApi \<Rightarrow> int rect \<Rightarrow> appSettings \<Rightarrow> domError + frameData option" where
  "extractFrame api rect settings =
     (if \<not> getContext2d api then Inr None
      else
        (case drawAndGetImageData api rect of
           Inl e \<Rightarrow> Inl e
         | Inr drawn \<Rightarrow>
             let imageData = keyedImage (processing settings) drawn
             in (case getTrimmedBounds imageData of
                   None \<Rightarrow> Inr None
                 | Some bnd \<Rightarrow>
                     if autoTrim (processing settings)
                     then
                       (if \<not> trimmedGetContext2d api then Inr None
                        else
                          (case toBlob api (cropImage imageData bnd) of
                             None \<Rightarrow> Inr None
                           | Some blob \<Rightarrow>
                               Inr (Some \<lparr>frameId = rectId rect,
                                          frameBlob = blob,
                                          frameUrl = createObjectURL api blob,
                                          frameRect = rect,
                                          trimOffset = (boundsX bnd, boundsY bnd),
                                          trimmedSize = (boundsW bnd, boundsH bnd),
                                          originalSize = (rectW rect, rectH rect)\<rparr>)))
                     else
                       (case toBlob api imageData of
                          None \<Rightarrow> Inr None
                        | Some blob \<Rightarrow>
                            Inr (Some \<lparr>frameId = rectId rect,
                                       frameBlob = blob,
                                       frameUrl = createObjectURL api blob,
                                       frameRect = rect,
                                       trimOffset = (0, 0),
                                       trimmedSize = (rectW rect, rectH rect),
                                       originalSize = (rectW rect, rectH rect)\<rparr>)))))"

section \<open>Visible pixels\<close>

text \<open>
  The claims speak of a buffer in which no pixel has alpha above zero. Pixel \<open>(x, y)\<close> is
  visible when its alpha byte, read as the scan reads it, is positive.
\<close>

definition visibleAt :: "imageData \<Rightarrow> nat \<Rightarrow> nat \<Rightarrow> bool" where
  "visibleAt im x y =
     (let k = (y * imageData.width im + x) * 4 + 3
      in k < length (data im) \<and> data im ! k > 0)"

definition allTransparent :: "imageData \<Rightarrow> bool" where
  "allTransparent im =
     (\<forall>y \<in> {..<imageData.height im}. \<forall>x \<in> {..<imageData.width im}. \<not> visibleAt im x y)"

section \<open>Example inputs\<close>

text \<open>
  A one-pixel image that is opaque and one that is transparent; a browser whose canvas
  calls all succeed and whose encoder returns the bytes of the canvas, and one whose encoder
  returns \<^verbatim>\<open>null\<close>; settings with colour keying and trimming switched off.
\<close>

definition opaquePixel :: imageData where
  "opaquePixel = \<lparr>imageData.width = 1, imageData.height = 1, data = [0, 0, 0, 255]\<rparr>"

definition clearPixel :: imageData where
  "clearPixel = \<lparr>imageData.width = 1, imageData.height = 1, data = [0, 0, 0, 0]\<rparr>"

text \<open>A target colour and a one-pixel image at colour distance 15 from it.\<close>

definition black :: colorRGB where
  "black = \<lparr>colR = Fin 0, colG = Fin 0, colB = Fin 0\<rparr>"

definition reddishPixel :: imageData where
  "reddishPixel = \<lparr>imageData.width = 1, imageData.height = 1, data = [15, 0, 0, 255]\<rparr>"

text \<open>
  A one-pixel image at colour distance 10 from black, the double next below 10
  (9.999999999999998) and the double \<open>2 ^ (- 50)\<close> (8.881784197001252e-16).
\<close>

definition darkRedPixel :: imageData where
  "darkRedPixel = \<lparr>imageData.width = 1, imageData.height = 1, data = [10, 0, 0, 100]\<rparr>"

definition nearTen :: double where
  "nearTen = Fin (10 - 1 / 2 ^ 49)"

definition tinyFeather :: double where
  "tinyFeather = Fin (1 / 2 ^ 50)"

definition encodingApi :: "imageData \<Rightarrow> canvasApi" where
  "encodingApi im =
     \<lparr>getContext2d = True, drawAndGetImageData = (\<lambda>r. Inr im), trimmedGetContext2d = True,
      toBlob = (\<lambda>canvas. Some (data canvas)), createObjectURL = (\<lambda>b. ''blob:frame'')\<rparr>"

definition failingEncoderApi :: "imageData \<Rightarrow> canvasApi" where
  "failingEncoderApi im = (encodingApi im)\<lparr>toBlob := (\<lambda>canvas. None)\<rparr>"

definition plainSettings :: appSettings where
  "plainSettings =
     \<lparr>grid = \<lparr>gridSettings.width = Fin 32, height = Fin 32, marginX = Fin 0, marginY = Fin 0,
               spacingX = Fin 0, spacingY = Fin 0\<rparr>,
      islands = \<lparr>minWidth = 2, minHeight = 2\<rparr>,
      processing = \<lparr>autoTrim = False, colorKeyEnabled = False, colorKeyColors = [],
                     colorKeyTolerance = Fin 0, colorKeyFeather = Fin 0\<rparr>\<rparr>"

text \<open>A heap that holds the pixel array of the opaque one-pixel image, and the image's reference.\<close>

definition pixelHeap :: heap where
  "pixelHeap = [data opaquePixel]"

definition pixelRef :: imageRef where
  "pixelRef = \<lparr>refWidth = 1, refHeight = 1, refData = 0\<rparr>"

definition unitRect :: "int rect" where
  "unitRect = \<lparr>rectId = ''manual-1'', rectX = 0, rectY = 0, rectW = 1, rectH = 1\<rparr>"

abbreviation maxXOf :: "int \<times> int \<times> int \<times> int \<Rightarrow> int" where
  "maxXOf s \<equiv> fst (snd (snd s))"

section \<open>Two opaque squares\<close>

text \<open>
  The buffers of the island-detection claim: pixel \<open>(x, y)\<close> lies in the 3 by 3 square whose
  top-left corner is \<open>(x0, y0)\<close>; and a well-formed buffer whose pixels with non-zero alpha are
  exactly those of two such squares, both inside the image and apart: at least one column or
  one row of transparent pixels lies between them, or they meet at a corner only, so that no
  pixel of one is a left, right, upper or lower neighbour of a pixel of the other.
\<close>

definition inSquare :: "nat \<Rightarrow> nat \<Rightarrow> nat \<Rightarrow> nat \<Rightarrow> bool" where
  "inSquare x0 y0 x y = (x0 \<le> x \<and> x < x0 + 3 \<and> y0 \<le> y \<and> y < y0 + 3)"

definition squaresApart :: "nat \<Rightarrow> nat \<Rightarrow> nat \<Rightarrow> nat \<Rightarrow> bool" where
  "squaresApart x1 y1 x2 y2 =
     (x1 + 3 < x2 \<or> x2 + 3 < x1 \<or> y1 + 3 < y2 \<or> y2 + 3 < y1 \<or>
      (x1 + 3 \<le> x2 \<or> x2 + 3 \<le> x1) \<and> (y1 + 3 \<le> y2 \<or> y2 + 3 \<le> y1))"

definition twoOpaqueSquares :: "imageData \<Rightarrow> nat \<Rightarrow> nat \<Rightarrow> nat \<Rightarrow> nat \<Rightarrow> bool" where
  "twoOpaqueSquares im x1 y1 x2 y2 =
     (length (data im) = 4 * (imageData.width im * imageData.height im) \<and>
      x1 + 3 \<le> imageData.width im \<and> y1 + 3 \<le> imageData.height im \<and>
      x2 + 3 \<le> imageData.width im \<and> y2 + 3 \<le> imageData.height im \<and>
      squaresApart x1 y1 x2 y2 \<and>
      (\<forall>y \<in> {..<imageData.height im}. \<forall>x \<in> {..<imageData.width im}.
          (data im ! ((y * imageData.width im + x) * 4 + 3) \<noteq> 0)
            = (inSquare x1 y1 x y \<or> inSquare x2 y2 x y)))"

text \<open>A 7 by 3 image with two opaque squares and one transparent column between them.\<close>

definition twoSquaresImage :: imageData where
  "twoSquaresImage =
     (let opq = [0, 0, 0, 255]; clr = [0, 0, 0, 0];
          row = opq @ opq @ opq @ clr @ opq @ opq @ opq
      in \<lparr>imageData.width = 7, imageData.height = 3, data = row @ row @ row\<rparr>)"

section \<open>Notions for the flood fill\<close>

text \<open>
  Two positions are adjacent when they differ by one in exactly one coordinate. A component
  is a set of positions inside the image, all of them non-transparent, that contains every
  non-transparent in-range neighbour candidate of its members. The invariant of the fill:
  the stack holds visited members of the component, and every visited member that is not on
  the stack has all its non-transparent in-range neighbour candidates visited.
\<close>

definition adjacent :: "nat \<Rightarrow> nat \<Rightarrow> nat \<Rightarrow> bool" where
  "adjacent w c m =
     (m mod w = c mod w \<and> (m div w = c div w + 1 \<or> m div w + 1 = c div w) \<or>
      m div w = c div w \<and> (m mod w = c mod w + 1 \<or> m mod w + 1 = c mod w))"

definition component :: "nat \<Rightarrow> byte list \<Rightarrow> nat \<Rightarrow> nat set \<Rightarrow> bool" where
  "component w d N C =
     (C \<subseteq> {..<N} \<and> (\<forall>c \<in> C. \<not> isTransparent d c) \<and>
      (\<forall>c \<in> C. \<forall>n \<in> set (neighbors w c).
          0 \<le> n \<and> n < int N \<and> \<not> isTransparent d (nat n) \<longrightarrow> nat n \<in> C))"

definition fillInv :: "nat \<Rightarrow> byte list \<Rightarrow> nat \<Rightarrow> nat set \<Rightarrow> nat list \<Rightarrow> bool list \<Rightarrow> bool" where
  "fillInv w d N C stack visited =
     (length visited = N \<and> set stack \<subseteq> C \<and> (\<forall>i \<in> set stack. visited ! i) \<and>
      (\<forall>c \<in> C. visited ! c \<and> c \<notin> set stack \<longrightarrow>
          (\<forall>n \<in> set (neighbors w c).
              0 \<le> n \<and> n < int N \<and> \<not> isTransparent d (nat n) \<longrightarrow> visited ! nat n)))"

text \<open>The box after one iteration of the fill; a box covering a position; a box inside another.\<close>

definition grow :: "nat \<Rightarrow> nat \<Rightarrow> int \<times> int \<times> int \<times> int \<Rightarrow> int \<times> int \<times> int \<times> int" where
  "grow w cur box =
     (case box of (minX, maxX, minY, maxY) \<Rightarrow>
        let cy = int (cur div w); cx = int (cur mod w)
        in (if cx < minX then cx else minX, if maxX < cx then cx else maxX,
            if cy < minY then cy else minY, if maxY < cy then cy else maxY))"

definition covers :: "nat \<Rightarrow> int \<times> int \<times> int \<times> int \<Rightarrow> nat \<Rightarrow> bool" where
  "covers w box i =
     (case box of (minX, maxX, minY, maxY) \<Rightarrow>
        minX \<le> int (i mod w) \<and> int (i mod w) \<le> maxX \<and>
        minY \<le> int (i div w) \<and> int (i div w) \<le> maxY)"

definition inside :: "int \<times> int \<times> int \<times> int \<Rightarrow> int \<times> int \<times> int \<times> int \<Rightarrow> bool" where
  "inside B box =
     (case B of (loX, hiX, loY, hiY) \<Rightarrow>
        case box of (minX, maxX, minY, maxY) \<Rightarrow>
          loX \<le> minX \<and> maxX \<le> hiX \<and> loY \<le> minY \<and> maxY \<le> hiY)"

text \<open>The positions of a square, and the state of the scan before position \<open>k\<close>.\<close>

definition squareSet :: "nat \<Rightarrow> nat \<Rightarrow> nat \<Rightarrow> nat \<Rightarrow> nat set" where
  "squareSet w N x0 y0 = {i. i < N \<and> inSquare x0 y0 (i mod w) (i div w)}"

definition scanState ::
  "imageData \<Rightarrow> nat \<Rightarrow> nat \<Rightarrow> nat \<Rightarrow> nat \<Rightarrow> int \<Rightarrow> int \<Rightarrow> nat \<Rightarrow> bool list \<times> int rect list \<times> nat \<Rightarrow> bool" where
  "scanState im x1 y1 x2 y2 minW minH k st =
     (let w = imageData.width im;
          N = w * imageData.height im;
          S1 = squareSet w N x1 y1;
          S2 = squareSet w N x2 y2;
          emit = (minW \<le> 3 \<and> minH \<le> 3);
          r1 = \<lparr>rectId = ''island-0'', rectX = int x1, rectY = int y1, rectW = 3, rectH = 3\<rparr>;
          r2 = \<lparr>rectId = ''island-1'', rectX = int x2, rectY = int y2, rectW = 3, rectH = 3\<rparr>
      in case st of (visited, rects, idc) \<Rightarrow>
           length visited = N \<and>
           (if k \<le> y1 * w + x1
            then (\<forall>i < N. \<not> visited ! i) \<and> rects = [] \<and> idc = 0
            else if k \<le> y2 * w + x2
            then (\<forall>i < N. visited ! i \<longleftrightarrow> i \<in> S1) \<and>
                 (if emit then rects = [r1] \<and> idc = 1 else rects = [] \<and> idc = 0)
            else (\<forall>i < N. visited ! i \<longleftrightarrow> i \<in> S1 \<or> i \<in> S2) \<and>
                 (if emit then rects = [r1, r2] \<and> idc = 2 else rects = [] \<and> idc = 0)))"

section \<open>Simplifier setup\<close>

declare showNat.simps [simp del]
declare keyLoop.simps [simp del]
declare floodFill.simps [simp del]
declare floodFillH.simps [simp del]

section \<open>Rounding to a double\<close>

lemma expo_lower:
  assumes "x \<noteq> 0"
  shows "2 powi (expo x) \<le> \<bar>x\<bar>"
proof (cases "1 \<le> \<bar>x\<bar>")
  case True
  let ?n = "\<lfloor>\<bar>x\<bar>\<rfloor>"
  have n: "0 < ?n" using True by simp
  have e: "expo x = bitlen ?n - 1" using True by (simp add: expo_def)
  have b1: "1 \<le> bitlen ?n" using n bitlen_eq_zero_iff[of ?n] bitlen_nonneg[of ?n] by linarith
  from bitlen_bounds[OF n] have "2 ^ nat (bitlen ?n - 1) \<le> ?n" by simp
  hence "(2::real) ^ nat (bitlen ?n - 1) \<le> of_int ?n"
    by (metis of_int_le_iff of_int_power of_int_numeral)
  also have "\<dots> \<le> \<bar>x\<bar>" by simp
  finally show ?thesis using e b1 by (simp add: power_int_def)
next
  case False
  let ?r = "1 / \<bar>x\<bar>"
  let ?c = "\<lceil>?r\<rceil>"
  let ?b = "bitlen (?c - 1)"
  have xpos: "0 < \<bar>x\<bar>" using assms by simp
  have r1: "1 < ?r" using False xpos by simp
  have c2: "2 \<le> ?c" using r1 by (simp add: le_ceiling_iff)
  have c1: "0 < ?c - 1" using c2 by simp
  have e: "expo x = - ?b" using False by (simp add: expo_def)
  have b1: "1 \<le> ?b" using c1 bitlen_eq_zero_iff[of "?c - 1"] bitlen_nonneg[of "?c - 1"] by linarith
  from bitlen_bounds[OF c1] have "?c - 1 < 2 ^ nat ?b" by simp
  hence "?c \<le> 2 ^ nat ?b" by simp
  hence "of_int ?c \<le> (2::real) ^ nat ?b"
    by (metis of_int_le_iff of_int_power of_int_numeral)
  moreover have "?r \<le> of_int ?c" by simp
  ultimately have "?r \<le> 2 ^ nat ?b" by linarith
  hence "1 \<le> 2 ^ nat ?b * \<bar>x\<bar>" using xpos by (simp add: field_simps)
  hence "1 / 2 ^ nat ?b \<le> \<bar>x\<bar>" by (simp add: field_simps)
  thus ?thesis using e b1 by (simp add: power_int_def field_simps)
qed

lemma expo_upper:
  assumes "x \<noteq> 0"
  shows "\<bar>x\<bar> < 2 powi (expo x + 1)"
proof (cases "1 \<le> \<bar>x\<bar>")
  case True
  let ?n = "\<lfloor>\<bar>x\<bar>\<rfloor>"
  have n: "0 < ?n" using True by simp
  have e: "expo x = bitlen ?n - 1" using True by (simp add: expo_def)
  have b1: "1 \<le> bitlen ?n" using n bitlen_eq_zero_iff[of ?n] bitlen_nonneg[of ?n] by linarith
  from bitlen_bounds[OF n] have "?n < 2 ^ nat (bitlen ?n)" by simp
  hence "?n + 1 \<le> 2 ^ nat (bitlen ?n)" by simp
  hence "of_int (?n + 1) \<le> (2::real) ^ nat (bitlen ?n)"
    by (metis of_int_le_iff of_int_power of_int_numeral)
  moreover have "\<bar>x\<bar> < of_int (?n + 1)" by linarith
  ultimately have "\<bar>x\<bar> < 2 ^ nat (bitlen ?n)" by linarith
  thus ?thesis using e b1 by (simp add: power_int_def)
next
  case False
  let ?r = "1 / \<bar>x\<bar>"
  let ?c = "\<lceil>?r\<rceil>"
  let ?b = "bitlen (?c - 1)"
  have xpos: "0 < \<bar>x\<bar>" using assms by simp
  have r1: "1 < ?r" using False xpos by simp
  have c2: "2 \<le> ?c" using r1 by (simp add: le_ceiling_iff)
  have c1: "0 < ?c - 1" using c2 by simp
  have e: "expo x = - ?b" using False by (simp add: expo_def)
  have b1: "1 \<le> ?b" using c1 bitlen_eq_zero_iff[of "?c - 1"] bitlen_nonneg[of "?c - 1"] by linarith
  from bitlen_bounds[OF c1] have "2 ^ nat (?b - 1) \<le> ?c - 1" by simp
  hence "(2::real) ^ nat (?b - 1) \<le> of_int (?c - 1)"
    by (metis of_int_le_iff of_int_power of_int_numeral)
  moreover have "of_int (?c - 1) < ?r" by linarith
  ultimately have lt: "2 ^ nat (?b - 1) < ?r" by linarith
  hence "2 ^ nat (?b - 1) * \<bar>x\<bar> < 1" using xpos by (simp add: field_simps)
  hence x: "\<bar>x\<bar> < 1 / 2 ^ nat (?b - 1)" by (simp add: field_simps)
  show ?thesis
  proof (cases "?b = 1")
    case True
    thus ?thesis using e x by simp
  next
    case F: False
    hence "expo x + 1 < 0" using e b1 by simp
    moreover have "nat (- (expo x + 1)) = nat (?b - 1)" using e by simp
    ultimately show ?thesis using x by (simp add: power_int_def field_simps)
  qed
qed

lemma roundEven_of_int: "roundEven (of_int k) = k"
  by (simp add: roundEven_def)

lemma roundEven_le: "r \<le> of_int k \<Longrightarrow> roundEven r \<le> k"
proof -
  assume a: "r \<le> of_int k"
  have f: "\<lfloor>r\<rfloor> \<le> k" using a by (simp add: floor_le_iff)
  show ?thesis
  proof (cases "\<lfloor>r\<rfloor> = k")
    case True
    hence "r - of_int \<lfloor>r\<rfloor> \<le> 0" using a by simp
    thus ?thesis using True by (simp add: roundEven_def Let_def)
  next
    case False
    hence "\<lfloor>r\<rfloor> + 1 \<le> k" using f by simp
    thus ?thesis by (simp add: roundEven_def Let_def)
  qed
qed

lemma roundEven_ge: "of_int k \<le> r \<Longrightarrow> k \<le> roundEven r"
proof -
  assume a: "of_int k \<le> r"
  have f: "k \<le> \<lfloor>r\<rfloor>" using a by (simp add: le_floor_iff)
  thus ?thesis by (simp add: roundEven_def Let_def)
qed

lemma pow2_less_cancel: "(2::real) powi a < 2 powi b \<Longrightarrow> a < b"
  by (metis linorder_not_less power_int_increasing one_le_numeral)

lemma fl_exact:
  assumes "x / 2 powi (max (expo x) (- 1022) - 52) = of_int k" "\<bar>x\<bar> < 2 powi 1024"
  shows "fl x = Fin x"
proof (cases "x = 0")
  case True thus ?thesis by (simp add: fl_def)
next
  case False
  let ?q = "(2::real) powi (max (expo x) (- 1022) - 52)"
  have q: "0 < ?q" by simp
  have "roundEven (x / ?q) = k" by (simp only: assms(1) roundEven_of_int)
  hence "of_int (roundEven (x / ?q)) * ?q = (x / ?q) * ?q" by (simp only: assms(1))
  also have "\<dots> = x" using q by simp
  finally have "of_int (roundEven (x / ?q)) * ?q = x" .
  thus ?thesis using False assms(2) by (simp add: fl_def Let_def)
qed

text \<open>A binary fraction with a significand below \<open>2 ^ 53\<close> is a double.\<close>

lemma fl_dyadic:
  assumes m: "\<bar>m\<bar> < 2 ^ 53" and j: "j \<le> 1074"
  shows "fl (of_int m / 2 ^ j) = Fin (of_int m / 2 ^ j)"
proof (cases "m = 0")
  case True thus ?thesis by (simp add: fl_def)
next
  case False
  let ?x = "of_int m / (2::real) ^ j"
  have x0: "?x \<noteq> 0" using False by simp
  have "\<bar>of_int m :: real\<bar> < 2 ^ 53" using m
    by (metis of_int_abs of_int_less_iff of_int_numeral of_int_power)
  hence ax: "\<bar>?x\<bar> < 2 ^ 53 / 2 ^ j" by (simp add: divide_strict_right_mono)
  also have "\<dots> = 2 powi (53 - int j)" by (simp add: power_int_diff)
  finally have "2 powi (expo ?x) < (2::real) powi (53 - int j)"
    using expo_lower[OF x0] by linarith
  hence e: "expo ?x < 53 - int j" by (rule pow2_less_cancel)
  define e' where "e' = max (expo ?x) (- 1022)"
  have e': "e' \<le> 52 - int j" using e j by (simp add: e'_def)
  define d where "d = nat (52 - int j - e')"
  have d: "int d = 52 - int j - e'" using e' by (simp add: d_def)
  have "(2::real) powi (52 - int j - e') * (2 ^ j * 2 powi (e' - 52)) =
          2 powi (52 - int j - e') * (2 powi (int j) * 2 powi (e' - 52))"
    by simp
  also have "\<dots> = 2 powi ((52 - int j - e') + (int j + (e' - 52)))"
    by (simp only: power_int_add[of "2::real", symmetric, simplified])
  also have "\<dots> = 1" by simp
  finally have "(2::real) powi (52 - int j - e') = 1 / (2 ^ j * 2 powi (e' - 52))"
    by (simp add: field_simps)
  hence "?x / 2 powi (e' - 52) = of_int m * 2 powi (52 - int j - e')"
    by simp
  also have "\<dots> = of_int m * 2 ^ d" by (simp add: d[symmetric])
  also have "\<dots> = of_int (m * 2 ^ d)" by simp
  finally have k: "?x / 2 powi (max (expo ?x) (- 1022) - 52) = of_int (m * 2 ^ d)"
    by (simp only: e'_def)
  have "(2::real) ^ 53 / 2 ^ j \<le> 2 ^ 53" by (simp add: field_simps)
  hence "\<bar>?x\<bar> < 2 powi 1024" using ax by simp
  thus ?thesis by (rule fl_exact[OF k])
qed

lemma fl_int: "\<bar>n\<bar> < 2 ^ 53 \<Longrightarrow> fl (of_int n) = Fin (of_int n)"
  using fl_dyadic[of n 0] by simp

lemma fl_half: "\<bar>n\<bar> < 2 ^ 53 \<Longrightarrow> fl (of_int n / 2) = Fin (of_int n / 2)"
  using fl_dyadic[of n 1] by simp

text \<open>Rounding does not cross an integer below \<open>2 ^ 53\<close>.\<close>

lemma fl_between:
  assumes ax: "of_int a \<le> x" and xb: "x \<le> of_int b" and a: "0 \<le> a" and b: "b < 2 ^ 53"
  shows "\<exists>y. fl x = Fin y \<and> of_int a \<le> y \<and> y \<le> of_int b"
proof (cases "x = 0")
  case True
  thus ?thesis using ax xb a by (simp add: fl_def)
next
  case False
  have xpos: "0 < x" using False ax a by (smt (verit) of_int_nonneg)
  have rb: "(of_int b :: real) < 2 ^ 53" using b
    by (metis of_int_less_iff of_int_numeral of_int_power)
  have "2 powi (expo x) \<le> \<bar>x\<bar>" by (rule expo_lower[OF False])
  hence "2 powi (expo x) < (2::real) powi 53" using xpos xb rb by simp
  hence e: "expo x < 53" by (rule pow2_less_cancel)
  define e' where "e' = max (expo x) (- 1022)"
  have e': "e' \<le> 52" using e by (simp add: e'_def)
  define d where "d = nat (52 - e')"
  have d: "int d = 52 - e'" using e' by (simp add: d_def)
  define q where "q = (2::real) powi (e' - 52)"
  have q: "0 < q" unfolding q_def by simp
  have "1 / q = 2 powi (52 - e')" by (simp add: q_def power_int_diff)
  also have "\<dots> = 2 ^ d" by (simp add: d[symmetric])
  finally have iq: "1 / q = 2 ^ d" .
  have sc: "\<And>k::int. of_int k / q = of_int (k * 2 ^ d)"
  proof -
    fix k :: int
    have "of_int k / q = of_int k * (1 / q)" by simp
    thus "of_int k / q = of_int (k * 2 ^ d)" by (simp only: iq) simp
  qed
  define r where "r = roundEven (x / q)"
  have "of_int (a * 2 ^ d) \<le> x / q" using ax q sc[of a, symmetric] by (simp add: divide_right_mono)
  hence lo: "a * 2 ^ d \<le> r" unfolding r_def by (rule roundEven_ge)
  have "x / q \<le> of_int (b * 2 ^ d)" using xb q sc[of b, symmetric] by (simp add: divide_right_mono)
  hence hi: "r \<le> b * 2 ^ d" unfolding r_def by (rule roundEven_le)
  have "(of_int (a * 2 ^ d) :: real) \<le> of_int r" using lo by (simp only: of_int_le_iff)
  hence "of_int a / q \<le> of_int r" by (simp only: sc)
  hence ylo: "of_int a \<le> of_int r * q" using q by (simp add: field_simps)
  have "(of_int r :: real) \<le> of_int (b * 2 ^ d)" using hi by (simp only: of_int_le_iff)
  hence "of_int r \<le> of_int b / q" by (simp only: sc)
  hence yhi: "of_int r * q \<le> of_int b" using q by (simp add: field_simps)
  have "0 \<le> of_int r * q" using ylo a by (smt (verit) of_int_nonneg)
  hence "\<bar>of_int r * q\<bar> < 2 powi 1024" using yhi rb by simp
  hence "fl x = Fin (of_int r * q)"
    using False by (simp add: fl_def Let_def r_def q_def e'_def)
  thus ?thesis using ylo yhi by blast
qed

text \<open>The same from above only, for either sign; the rounded value may be \<open>-\<infinity>\<close>.\<close>

lemma fl_le_int:
  assumes xb: "x \<le> of_int b" and b: "\<bar>b\<bar> < 2 ^ 53"
  shows "dle (fl x) (Fin (of_int b))"
proof (cases "x = 0")
  case True
  thus ?thesis using xb by (simp add: fl_def)
next
  case False
  have rb: "(of_int b :: real) < 2 ^ 53" "- (2 ^ 53) < (of_int b :: real)"
  proof -
    have "b < 2 ^ 53" "- (2 ^ 53) < b" using b by linarith+
    thus "(of_int b :: real) < 2 ^ 53" "- (2 ^ 53) < (of_int b :: real)"
      by (metis of_int_less_iff of_int_numeral of_int_power, metis of_int_less_iff of_int_numeral of_int_power of_int_minus)
  qed
  define e' where "e' = max (expo x) (- 1022)"
  define q where "q = (2::real) powi (e' - 52)"
  have q: "0 < q" unfolding q_def by simp
  define r where "r = roundEven (x / q)"
  have yb: "of_int r * q \<le> of_int b"
  proof (cases "e' \<le> 52")
    case True
    define d where "d = nat (52 - e')"
    have d: "int d = 52 - e'" using True by (simp add: d_def)
    have "1 / q = 2 powi (52 - e')" by (simp add: q_def power_int_diff)
    also have "\<dots> = 2 ^ d" by (simp add: d[symmetric])
    finally have iq: "1 / q = 2 ^ d" .
    have "of_int b / q = of_int b * (1 / q)" by simp
    hence sc: "of_int b / q = of_int (b * 2 ^ d)" by (simp only: iq) simp
    have "x / q \<le> of_int (b * 2 ^ d)" using xb q sc[symmetric] by (simp add: divide_right_mono)
    hence "r \<le> b * 2 ^ d" unfolding r_def by (rule roundEven_le)
    hence "(of_int r :: real) \<le> of_int (b * 2 ^ d)" by (simp only: of_int_le_iff)
    hence "of_int r \<le> of_int b / q" by (simp only: sc)
    thus ?thesis using q by (simp add: field_simps)
  next
    case F: False
    hence ee: "e' = expo x" "52 < expo x" by (simp_all add: e'_def)
    have "(2::real) powi 53 \<le> 2 powi (expo x)"
      using ee(2) by (intro power_int_increasing) simp_all
    hence big: "2 ^ 53 \<le> \<bar>x\<bar>" using expo_lower[OF False] by simp
    have neg: "x < 0"
    proof (rule ccontr)
      assume "\<not> x < 0"
      hence "2 ^ 53 \<le> x" using big by simp
      thus False using xb rb(1) by linarith
    qed
    have lo: "2 powi (expo x) \<le> - x" using expo_lower[OF False] neg by simp
    have "(2::real) powi (expo x) = 2 powi (52 + (expo x - 52))" by simp
    also have "\<dots> = 2 powi 52 * q"
      unfolding q_def ee(1) by (rule power_int_add) simp
    finally have pq: "(2::real) powi (expo x) = 2 ^ 52 * q" by simp
    have "2 ^ 52 * q \<le> - x" using lo pq by simp
    hence "x / q \<le> - (2 ^ 52)" using q by (simp add: field_simps)
    hence "x / q \<le> of_int (- (2 ^ 52))" by simp
    hence "r \<le> - (2 ^ 52)" unfolding r_def by (rule roundEven_le)
    hence "(of_int r :: real) \<le> of_int (- (2 ^ 52))" by (simp only: of_int_le_iff)
    hence "of_int r \<le> - ((2::real) ^ 52)" by simp
    hence "of_int r * q \<le> - (2 ^ 52) * q" using q by (intro mult_right_mono) simp_all
    also have "\<dots> = - (2 powi (expo x))" using pq by simp
    also have "\<dots> \<le> - (2 ^ 53)" using \<open>(2::real) powi 53 \<le> 2 powi (expo x)\<close> by simp
    finally show ?thesis using rb(2) by linarith
  qed
  have f: "fl x = (if 2 powi 1024 \<le> \<bar>of_int r * q\<bar> then (if 0 < x then PInf else NInf)
                   else Fin (of_int r * q))"
    using False by (simp add: fl_def Let_def r_def q_def e'_def)
  show ?thesis
  proof (cases "2 powi 1024 \<le> \<bar>of_int r * q\<bar>")
    case False
    thus ?thesis using f yb by simp
  next
    case True
    have "\<not> 0 < x"
    proof
      assume xp: "0 < x"
      hence "0 \<le> x / q" using q by simp
      hence "of_int 0 \<le> x / q" by simp
      hence "0 \<le> r" unfolding r_def by (rule roundEven_ge)
      hence "0 \<le> of_int r * q" using q by simp
      hence "\<bar>of_int r * q\<bar> < 2 powi 1024" using yb rb(1) by simp
      thus False using True by simp
    qed
    thus ?thesis using f True by simp
  qed
qed

text \<open>
  The rounding of a number whose binary exponent \<open>e\<close> is known, in the range of the normal
  doubles: the number is rounded to a multiple of \<open>2 ^ (e - 52)\<close>.
\<close>

lemma fl_at:
  assumes lo: "2 powi e \<le> \<bar>x\<bar>" and hi: "\<bar>x\<bar> < 2 powi (e + 1)"
    and e: "- 1022 \<le> e" "e \<le> 1022"
  shows "fl x = Fin (of_int (roundEven (x / 2 powi (e - 52))) * 2 powi (e - 52))"
proof -
  have x0: "x \<noteq> 0" using lo by (smt (verit) zero_less_power_int abs_zero)
  have "2 powi (expo x) < (2::real) powi (e + 1)" using expo_lower[OF x0] hi by linarith
  then have "expo x < e + 1" by (rule pow2_less_cancel)
  moreover have "(2::real) powi e < 2 powi (expo x + 1)" using expo_upper[OF x0] lo by linarith
  then have "e < expo x + 1" by (rule pow2_less_cancel)
  ultimately have ex: "expo x = e" by simp
  define q where "q = (2::real) powi (e - 52)"
  have q: "0 < q" unfolding q_def by simp
  have "e + 1 = 53 + (e - 52)" by simp
  then have "(2::real) powi (e + 1) = 2 powi (53 + (e - 52))" by (simp only:)
  also have "\<dots> = 2 powi 53 * q" unfolding q_def by (rule power_int_add) simp
  finally have pq: "(2::real) powi (e + 1) = 2 ^ 53 * q" by simp
  define r where "r = roundEven (x / q)"
  have "\<bar>x\<bar> / q < 2 ^ 53" using hi pq q by (simp add: field_simps)
  then have b: "x / q \<le> of_int (2 ^ 53)" "of_int (- (2 ^ 53)) \<le> x / q"
    using q by (simp_all add: abs_if field_simps split: if_splits)
  have "r \<le> 2 ^ 53" unfolding r_def using b(1) by (rule roundEven_le)
  moreover have "- (2 ^ 53) \<le> r" unfolding r_def using b(2) by (rule roundEven_ge)
  ultimately have "r \<le> 2 ^ 53" "- (2 ^ 53) \<le> r" by simp_all
  then have "\<bar>r\<bar> \<le> 2 ^ 53" by simp
  then have "\<bar>real_of_int r\<bar> \<le> 2 ^ 53"
    by (metis of_int_abs of_int_le_iff of_int_numeral of_int_power)
  then have "\<bar>of_int r * q\<bar> \<le> 2 ^ 53 * q" using q by (simp add: abs_mult)
  also have "\<dots> = 2 powi (e + 1)" using pq by simp
  also have "\<dots> \<le> 2 powi 1023" using e(2) by (intro power_int_increasing) simp_all
  also have "\<dots> < (2::real) powi 1024" by (intro power_int_strict_increasing) simp_all
  finally have "\<not> 2 powi 1024 \<le> \<bar>of_int r * q\<bar>" by simp
  then show ?thesis
    using x0 e(1) by (simp add: fl_def Let_def ex r_def q_def max_def)
qed

text \<open>Doubles that stand for small integers: their sums and comparisons.\<close>

lemma pows:
  "(2::int) ^ 50 = 1125899906842624" "(2::int) ^ 51 = 2251799813685248"
  "(2::int) ^ 53 = 9007199254740992"
  by simp_all

lemma byte_bound: "int (unat (a::byte)) \<le> 255" "\<bar>int (unat a)\<bar> < 2 ^ 53"
proof -
  have "unat a < 256" using unsigned_less[of a] by simp
  then show "int (unat a) \<le> 255" by linarith
  then show "\<bar>int (unat a)\<bar> < 2 ^ 53" by (simp only: pows abs_less_iff) linarith
qed

lemma dadd_int:
  "\<bar>a + b\<bar> < 2 ^ 53 \<Longrightarrow> dadd (numOfInt a) (numOfInt b) = numOfInt (a + b)"
  using fl_int[of "a + b"] by (simp add: numOfInt_def)

lemma dle_int: "dle (numOfInt a) (numOfInt b) = (a \<le> b)"
  by (simp add: numOfInt_def)

lemma fl_numeral: "numeral k < (2::int) ^ 53 \<Longrightarrow> fl (numeral k) = Fin (numeral k)"
  using fl_int[of "numeral k"] by simp

lemma fl_half_numeral: "numeral k < (2::int) ^ 53 \<Longrightarrow> fl (numeral k / 2) = Fin (numeral k / 2)"
  using fl_half[of "numeral k"] by simp

lemma fl_simple: "fl 0 = Fin 0" "fl 1 = Fin 1" "fl (1 / 2) = Fin (1 / 2)"
  using fl_int[of 0] fl_int[of 1] fl_half[of 1] by simp_all

section \<open>hexToRgb accepts exactly the well-formed strings\<close>

lemma hexChars: "map char_of [48, 49, 50, 51, 52, 53, 54, 55, 56, 57, 97, 98, 99, 100, 101, 102, 65, 66, 67, 68, 69, 70 :: nat] = ''0123456789abcdefABCDEF''"
  by (simp add: char_of_def bit_Suc_0_iff)

lemma hexClass_isHexDigit: "hexClass c = isHexDigit c"
proof
  assume h: "hexClass c"
  then have "(of_char c :: nat) \<in> set [48, 49, 50, 51, 52, 53, 54, 55, 56, 57, 97, 98, 99, 100, 101, 102, 65, 66, 67, 68, 69, 70]"
    unfolding hexClass_def Let_def by (simp; arith)
  then have "char_of (of_char c :: nat) \<in> char_of ` set [48, 49, 50, 51, 52, 53, 54, 55, 56, 57, 97, 98, 99, 100, 101, 102, 65, 66, 67, 68, 69, 70 :: nat]"
    by (rule imageI)
  then have "c \<in> set (map char_of [48, 49, 50, 51, 52, 53, 54, 55, 56, 57, 97, 98, 99, 100, 101, 102, 65, 66, 67, 68, 69, 70 :: nat])"
    by (simp only: set_map char_of_char)
  then show "isHexDigit c"
    unfolding isHexDigit_def by (simp only: hexChars)
next
  assume "isHexDigit c"
  then show "hexClass c"
    unfolding isHexDigit_def hexClass_def Let_def by auto
qed
lemma hexDigitValue_le: "hexClass c \<Longrightarrow> hexDigitValue c \<le> 15"
  unfolding hexClass_def hexDigitValue_def Let_def by auto

lemma matchGroups_Some:
  "matchGroups s = Some m \<longleftrightarrow>
     (\<exists>c1 c2 c3 c4 c5 c6. s = [c1, c2, c3, c4, c5, c6] \<and> m = ([c1, c2], [c3, c4], [c5, c6])
        \<and> hexClass c1 \<and> hexClass c2 \<and> hexClass c3 \<and> hexClass c4 \<and> hexClass c5 \<and> hexClass c6)"
  by (cases s rule: matchGroups.cases) auto

lemma matchGroups_None:
  "matchGroups s = None \<longleftrightarrow> \<not> (length s = 6 \<and> (\<forall>c \<in> set s. hexClass c))"
  by (cases s rule: matchGroups.cases) auto

lemma parseInt16_pair:
  "hexClass c1 \<Longrightarrow> hexClass c2 \<Longrightarrow> parseInt16 [c1, c2] = Some (16 * hexDigitValue c1 + hexDigitValue c2)"
  by (simp add: parseInt16_def)

lemma hexExec_Some:
  "hexExec s \<noteq> None \<longleftrightarrow> wellFormedHex s"
proof -
  have m: "matchGroups t \<noteq> None \<longleftrightarrow> (length t = 6 \<and> (\<forall>c \<in> set t. isHexDigit c))" for t
    using matchGroups_None[of t] by (simp add: hexClass_isHexDigit)
  show ?thesis
  proof (cases s)
    case Nil
    then show ?thesis using m[of "[]"] by (auto simp: hexExec_def wellFormedHex_def sixHexDigits_def)
  next
    case (Cons c rest)
    show ?thesis
    proof (cases "c = CHR ''#''")
      case True
      have "\<not> isHexDigit (CHR ''#'')" by (simp add: isHexDigit_def)
      then have "matchGroups s = None"
        using matchGroups_None[of s] Cons True by (auto simp: hexClass_isHexDigit)
      then have "hexExec s \<noteq> None \<longleftrightarrow> matchGroups rest \<noteq> None"
        using Cons True by (simp add: hexExec_def split: option.splits)
      moreover have "wellFormedHex s \<longleftrightarrow> (length rest = 6 \<and> (\<forall>c \<in> set rest. isHexDigit c))"
        using Cons True \<open>\<not> isHexDigit (CHR ''#'')\<close> unfolding wellFormedHex_def sixHexDigits_def by auto
      ultimately show ?thesis using m[of rest] by simp
    next
      case False
      then have "hexExec s = matchGroups s" using Cons by (simp add: hexExec_def)
      moreover have "wellFormedHex s \<longleftrightarrow> (length s = 6 \<and> (\<forall>c \<in> set s. isHexDigit c))"
        using Cons False unfolding wellFormedHex_def sixHexDigits_def by auto
      ultimately show ?thesis using m[of s] by simp
    qed
  qed
qed

lemma hexExec_groups:
  assumes "hexExec s = Some (s1, s2, s3)"
  shows "\<exists>c1 c2 c3 c4 c5 c6. s1 = [c1, c2] \<and> s2 = [c3, c4] \<and> s3 = [c5, c6]
           \<and> hexClass c1 \<and> hexClass c2 \<and> hexClass c3 \<and> hexClass c4 \<and> hexClass c5 \<and> hexClass c6"
proof -
  from assms obtain t where "matchGroups t = Some (s1, s2, s3)"
    by (auto simp: hexExec_def split: list.splits if_splits option.splits)
  then show ?thesis unfolding matchGroups_Some by blast
qed

lemma parseInt16_pair_le:
  assumes "hexClass c1" "hexClass c2"
  shows "\<exists>v. parseInt16 [c1, c2] = Some v \<and> v \<le> 255"
  using hexDigitValue_le[OF assms(1)] hexDigitValue_le[OF assms(2)] parseInt16_pair[OF assms]
  by simp

text \<open>
  Claim C8. \<^verbatim>\<open>hexToRgb\<close> returns a colour exactly for the strings made of an optional
  leading hash sign and exactly six hexadecimal digits of either case, and \<open>None\<close> for
  every other string; each channel of a returned colour is an integer in 0..255.
\<close>

theorem hexToRgb_wellFormed:
  "(hexToRgb s \<noteq> None \<longleftrightarrow> wellFormedHex s) \<and>
   (\<forall>c. hexToRgb s = Some c \<longrightarrow>
      (\<exists>vr vg vb :: nat. vr \<le> 255 \<and> vg \<le> 255 \<and> vb \<le> 255 \<and>
         c = \<lparr>colR = Fin (real vr), colG = Fin (real vg), colB = Fin (real vb)\<rparr>))"
proof (cases "hexExec s")
  case None
  then show ?thesis using hexExec_Some[of s] by (simp add: hexToRgb_def)
next
  case (Some m)
  obtain s1 s2 s3 where m: "m = (s1, s2, s3)" by (cases m) auto
  from hexExec_groups[OF Some[unfolded m]] obtain c1 c2 c3 c4 c5 c6 where
    g: "s1 = [c1, c2]" "s2 = [c3, c4]" "s3 = [c5, c6]"
    and h: "hexClass c1" "hexClass c2" "hexClass c3" "hexClass c4" "hexClass c5" "hexClass c6"
    by blast
  obtain v1 v2 v3 where
    v: "parseInt16 s1 = Some v1" "v1 \<le> 255" "parseInt16 s2 = Some v2" "v2 \<le> 255"
       "parseInt16 s3 = Some v3" "v3 \<le> 255"
    using parseInt16_pair_le[OF h(1,2)] parseInt16_pair_le[OF h(3,4)] parseInt16_pair_le[OF h(5,6)] g
    by auto
  have r: "hexToRgb s = Some \<lparr>colR = Fin (real v1), colG = Fin (real v2), colB = Fin (real v3)\<rparr>"
    using Some m v by (simp add: hexToRgb_def)
  have "wellFormedHex s" using hexExec_Some[of s] Some by simp
  with r v show ?thesis by auto
qed

theorem hexToRgb_wellFormed_witness:
  "hexToRgb ''#ff8000'' = Some \<lparr>colR = Fin 255, colG = Fin 128, colB = Fin 0\<rparr> \<and> wellFormedHex ''#ff8000''
   \<and> hexToRgb ''ff800'' = None \<and> \<not> wellFormedHex ''ff800''"
proof -
  have 1: "hexToRgb ''#ff8000'' = Some \<lparr>colR = Fin 255, colG = Fin 128, colB = Fin 0\<rparr>"
    by (simp add: hexToRgb_def hexExec_def hexClass_def parseInt16_def hexDigitValue_def)
  have 2: "hexToRgb ''ff800'' = None"
    by (simp add: hexToRgb_def hexExec_def)
  show ?thesis
    using hexToRgb_wellFormed[of "''#ff8000''"] hexToRgb_wellFormed[of "''ff800''"] 1 2 by simp
qed

section \<open>The grid loops: results and divergence\<close>

text \<open>
  A cursor that is at most the integer \<open>X0\<close> stays so under a step that is not positive,
  and the loop test holds for it whenever it holds for \<open>X0\<close>.
\<close>

lemma cursor_stays:
  assumes "dle x (numOfInt X0)" "S \<le> 0" "\<bar>X0\<bar> < 2 ^ 53"
  shows "dle (dadd x (numOfInt S)) (numOfInt X0)"
proof (cases x)
  case (Fin r)
  with assms(1) have "r \<le> of_int X0" by (simp add: numOfInt_def)
  with assms(2) have "r + of_int S \<le> of_int X0" by simp
  from fl_le_int[OF this assms(3)] show ?thesis by (simp add: Fin numOfInt_def)
next
  case NInf
  then show ?thesis by (simp add: numOfInt_def)
next
  case PInf
  with assms(1) show ?thesis by (simp add: numOfInt_def)
next
  case NaN
  with assms(1) show ?thesis by (simp add: numOfInt_def)
qed

lemma cursor_test:
  assumes "dle x (numOfInt X0)" "X0 + W \<le> IW" "\<bar>IW\<bar> < 2 ^ 53"
  shows "dle (dadd x (numOfInt W)) (numOfInt IW)"
proof (cases x)
  case (Fin r)
  with assms(1) have "r \<le> of_int X0" by (simp add: numOfInt_def)
  moreover have "(of_int X0 :: real) + of_int W \<le> of_int IW"
    using assms(2) by (metis of_int_add of_int_le_iff)
  ultimately have "r + of_int W \<le> of_int IW" by simp
  from fl_le_int[OF this assms(3)] show ?thesis by (simp add: Fin numOfInt_def)
next
  case NInf
  then show ?thesis by (simp add: numOfInt_def)
next
  case PInf
  with assms(1) show ?thesis by (simp add: numOfInt_def)
next
  case NaN
  with assms(1) show ?thesis by (simp add: numOfInt_def)
qed

lemma gridRow_diverges:
  assumes g: "gridSettings.width g = numOfInt W" "spacingX g = numOfInt SX"
    and s: "W + SX \<le> 0" and room: "X0 + W \<le> IW"
    and b: "\<bar>W + SX\<bar> < 2 ^ 53" "\<bar>X0\<bar> < 2 ^ 53" "\<bar>IW\<bar> < 2 ^ 53"
    and x: "dle x (numOfInt X0)"
  shows "gridRow (numOfInt IW) g y rects x idc = None"
proof (rule ccontr)
  assume "gridRow (numOfInt IW) g y rects x idc \<noteq> None"
  then obtain res where r: "gridRow (numOfInt IW) g y rects x idc = Some res" by auto
  have step: "dadd (gridSettings.width g) (spacingX g) = numOfInt (W + SX)"
    unfolding g by (rule dadd_int[OF b(1)])
  define P where "P = (\<lambda>(iw::double) (g'::gridSettings) (y::double) (rects::double rect list)
      (x::double) (idc::nat) (res::double rect list \<times> double \<times> nat).
        iw = numOfInt IW \<and> g' = g \<and> dle x (numOfInt X0) \<longrightarrow> False)"
  have "P (numOfInt IW) g y rects x idc res"
  proof (rule gridRow.raw_induct
        [where P = P and xa = "(((((numOfInt IW, g), y), rects), x), idc)" and ya = res,
          simplified], goal_cases)
    case (1 gr iw' g'' y' rects' x' idc' res')
    show ?case
      unfolding P_def
    proof (intro impI, elim conjE)
      assume h: "iw' = numOfInt IW" "g'' = g" "dle x' (numOfInt X0)"
      have t: "dle (dadd x' (gridSettings.width g)) (numOfInt IW)"
        unfolding g by (rule cursor_test[OF h(3) room b(3)])
      have n: "dle (dadd x' (dadd (gridSettings.width g) (spacingX g))) (numOfInt X0)"
        unfolding step by (rule cursor_stays[OF h(3) s b(2)])
      from 1(2) t h have "gr iw' g'' y'
             (rects' @ [\<lparr>rectId = ''grid-'' @ showNat idc', rectX = x', rectY = y',
                        rectW = gridSettings.width g'', rectH = gridSettings.height g''\<rparr>])
             (dadd x' (dadd (gridSettings.width g'') (spacingX g''))) (Suc idc') = Some res'"
        by simp
      from 1(1)[OF this, unfolded P_def] h n show False by simp
    qed
  next
    case 2
    show ?case by (rule r)
  qed
  with x show False by (simp add: P_def)
qed

lemma gridRows_diverges:
  assumes g: "gridSettings.height g = numOfInt H" "spacingY g = numOfInt SY"
    and s: "H + SY \<le> 0" and room: "Y0 + H \<le> IH"
    and b: "\<bar>H + SY\<bar> < 2 ^ 53" "\<bar>Y0\<bar> < 2 ^ 53" "\<bar>IH\<bar> < 2 ^ 53"
    and y: "dle y (numOfInt Y0)"
  shows "gridRows iw (numOfInt IH) g rects x y idc = None"
proof (rule ccontr)
  assume "gridRows iw (numOfInt IH) g rects x y idc \<noteq> None"
  then obtain res where r: "gridRows iw (numOfInt IH) g rects x y idc = Some res" by auto
  have step: "dadd (gridSettings.height g) (spacingY g) = numOfInt (H + SY)"
    unfolding g by (rule dadd_int[OF b(1)])
  define P where "P = (\<lambda>(iw::double) (ih::double) (g'::gridSettings) (rects::double rect list)
      (x::double) (y::double) (idc::nat) (res::double rect list).
        ih = numOfInt IH \<and> g' = g \<and> dle y (numOfInt Y0) \<longrightarrow> False)"
  have "P iw (numOfInt IH) g rects x y idc res"
  proof (rule gridRows.raw_induct
        [where P = P and xa = "((((((iw, numOfInt IH), g), rects), x), y), idc)" and ya = res,
          simplified], goal_cases)
    case (1 gr iw' ih' g'' rects' x' y' idc' res')
    show ?case
      unfolding P_def
    proof (intro impI, elim conjE)
      assume h: "ih' = numOfInt IH" "g'' = g" "dle y' (numOfInt Y0)"
      have t: "dle (dadd y' (gridSettings.height g)) (numOfInt IH)"
        unfolding g by (rule cursor_test[OF h(3) room b(3)])
      have n: "dle (dadd y' (dadd (gridSettings.height g) (spacingY g))) (numOfInt Y0)"
        unfolding step by (rule cursor_stays[OF h(3) s b(2)])
      from 1(2) t h obtain rects'' idc'' where
        "gr iw' ih' g'' rects'' (marginX g'')
            (dadd y' (dadd (gridSettings.height g'') (spacingY g''))) idc'' = Some res'"
        by (auto split: option.splits)
      from 1(1)[OF this, unfolded P_def] h n show False by simp
    qed
  next
    case 2
    show ?case by (rule r)
  qed
  with y show False by (simp add: P_def)
qed

lemma gridRow_result:
  assumes g: "gridSettings.width g = numOfInt W" "spacingX g = numOfInt SX"
    and pos: "0 < W + SX"
    and b: "\<bar>W\<bar> \<le> 2 ^ 50" "\<bar>SX\<bar> \<le> 2 ^ 50" "\<bar>IW\<bar> \<le> 2 ^ 50"
    and x: "- (2 ^ 50) \<le> X" "X \<le> 2 ^ 51"
  shows "\<exists>n. \<forall>y rects idc. gridRow (numOfInt IW) g y rects (numOfInt X) idc =
            Some (rects @ gridRowCells g n idc X (W + SX) y,
                  numOfInt (X + int n * (W + SX)), idc + n)"
  using x
proof (induction "nat (IW - (X + W) + 1)" arbitrary: X rule: less_induct)
  case less
  let ?s = "W + SX"
  have step: "dadd (gridSettings.width g) (spacingX g) = numOfInt ?s"
    unfolding g using b by (intro dadd_int) (simp only: pows abs_le_iff abs_less_iff, linarith)
  have sum: "dadd (numOfInt X) (gridSettings.width g) = numOfInt (X + W)"
    unfolding g using b less.prems by (intro dadd_int) (simp only: pows abs_le_iff abs_less_iff, linarith)
  have test: "dle (dadd (numOfInt X) (gridSettings.width g)) (numOfInt IW) = (X + W \<le> IW)"
    unfolding sum by (rule dle_int)
  show ?case
  proof (cases "X + W \<le> IW")
    case True
    have nx: "dadd (numOfInt X) (dadd (gridSettings.width g) (spacingX g)) = numOfInt (X + ?s)"
      unfolding step using b less.prems True by (intro dadd_int) (simp only: pows abs_le_iff abs_less_iff, linarith)
    have m: "nat (IW - ((X + ?s) + W) + 1) < nat (IW - (X + W) + 1)"
      using True pos by linarith
    have lo: "- (2 ^ 50) \<le> X + ?s" using less.prems pos by linarith
    have hi: "X + ?s \<le> 2 ^ 51" using True b by (simp only: pows abs_le_iff, linarith)
    from less.hyps[OF m lo hi] obtain n where
      n: "\<And>y rects idc. gridRow (numOfInt IW) g y rects (numOfInt (X + ?s)) idc =
            Some (rects @ gridRowCells g n idc (X + ?s) ?s y,
                  numOfInt ((X + ?s) + int n * ?s), idc + n)"
      by blast
    have "gridRow (numOfInt IW) g y rects (numOfInt X) idc =
            Some (rects @ gridRowCells g (Suc n) idc X ?s y,
                  numOfInt (X + int (Suc n) * ?s), idc + Suc n)" for y rects idc
    proof -
      have "gridRowCells g (Suc n) idc X ?s y =
              gridCell g idc (numOfInt X) y # gridRowCells g n (Suc idc) (X + ?s) ?s y"
        by (simp add: upt_conv_Cons map_Suc_upt[symmetric] algebra_simps del: upt_Suc)
      moreover have "(X + ?s) + int n * ?s = X + int (Suc n) * ?s"
        by (simp add: algebra_simps)
      ultimately show ?thesis
        using True n[of y "rects @ [gridCell g idc (numOfInt X) y]" "Suc idc"]
        by (subst gridRow.simps) (simp only: test nx if_True append_assoc append_Cons append_Nil add_Suc_right add_Suc)
    qed
    then show ?thesis by blast
  next
    case False
    then have "gridRow (numOfInt IW) g y rects (numOfInt X) idc =
        Some (rects @ gridRowCells g 0 idc X ?s y, numOfInt (X + int 0 * ?s), idc + 0)"
      for y rects idc
      by (subst gridRow.simps) (simp add: test)
    then show ?thesis by blast
  qed
qed

lemma gridRows_result:
  assumes row: "\<And>y rects idc. gridRow iw g y rects (marginX g) idc =
            Some (rects @ gridRowCells g n idc MX SXW y, x' y, idc + n)"
    and g: "gridSettings.height g = numOfInt H" "spacingY g = numOfInt SY"
    and pos: "0 < H + SY"
    and b: "\<bar>H\<bar> \<le> 2 ^ 50" "\<bar>SY\<bar> \<le> 2 ^ 50" "\<bar>IH\<bar> \<le> 2 ^ 50"
    and y: "- (2 ^ 50) \<le> Y" "Y \<le> 2 ^ 51"
  shows "\<exists>m. gridRows iw (numOfInt IH) g rects (marginX g) (numOfInt Y) idc =
            Some (rects @ concat (map (\<lambda>j. gridRowCells g n (idc + j * n) MX SXW
                                        (numOfInt (Y + int j * (H + SY)))) [0..<m]))"
  using y
proof (induction "nat (IH - (Y + H) + 1)" arbitrary: Y rects idc rule: less_induct)
  case less
  let ?s = "H + SY"
  have step: "dadd (gridSettings.height g) (spacingY g) = numOfInt ?s"
    unfolding g using b by (intro dadd_int) (simp only: pows abs_le_iff abs_less_iff, linarith)
  have sum: "dadd (numOfInt Y) (gridSettings.height g) = numOfInt (Y + H)"
    unfolding g using b less.prems by (intro dadd_int) (simp only: pows abs_le_iff abs_less_iff, linarith)
  have test: "dle (dadd (numOfInt Y) (gridSettings.height g)) (numOfInt IH) = (Y + H \<le> IH)"
    unfolding sum by (rule dle_int)
  show ?case
  proof (cases "Y + H \<le> IH")
    case True
    have ny: "dadd (numOfInt Y) (dadd (gridSettings.height g) (spacingY g)) = numOfInt (Y + ?s)"
      unfolding step using b less.prems True by (intro dadd_int) (simp only: pows abs_le_iff abs_less_iff, linarith)
    have m: "nat (IH - ((Y + ?s) + H) + 1) < nat (IH - (Y + H) + 1)"
      using True pos by linarith
    have lo: "- (2 ^ 50) \<le> Y + ?s" using less.prems pos by linarith
    have hi: "Y + ?s \<le> 2 ^ 51" using True b by (simp only: pows abs_le_iff, linarith)
    from less.hyps[OF m lo hi, of "rects @ gridRowCells g n idc MX SXW (numOfInt Y)" "idc + n"]
    obtain m where m: "gridRows iw (numOfInt IH) g (rects @ gridRowCells g n idc MX SXW (numOfInt Y))
          (marginX g) (numOfInt (Y + ?s)) (idc + n) =
        Some ((rects @ gridRowCells g n idc MX SXW (numOfInt Y)) @
              concat (map (\<lambda>j. gridRowCells g n ((idc + n) + j * n) MX SXW
                                 (numOfInt ((Y + ?s) + int j * ?s))) [0..<m]))"
      by blast
    have "concat (map (\<lambda>j. gridRowCells g n (idc + j * n) MX SXW (numOfInt (Y + int j * ?s))) [0..<Suc m])
          = gridRowCells g n idc MX SXW (numOfInt Y) @
            concat (map (\<lambda>j. gridRowCells g n ((idc + n) + j * n) MX SXW
                               (numOfInt ((Y + ?s) + int j * ?s))) [0..<m])"
      by (simp add: upt_conv_Cons map_Suc_upt[symmetric] comp_def algebra_simps del: upt_Suc)
    then have "gridRows iw (numOfInt IH) g rects (marginX g) (numOfInt Y) idc =
            Some (rects @ concat (map (\<lambda>j. gridRowCells g n (idc + j * n) MX SXW
                                             (numOfInt (Y + int j * ?s))) [0..<Suc m]))"
      using True m row[of "numOfInt Y" rects idc]
      by (subst gridRows.simps) (simp add: test ny del: upt_Suc)
    then show ?thesis by blast
  next
    case False
    then have "gridRows iw (numOfInt IH) g rects (marginX g) (numOfInt Y) idc =
            Some (rects @ concat (map (\<lambda>j. gridRowCells g n (idc + j * n) MX SXW
                                             (numOfInt (Y + int j * ?s))) [0..<0]))"
      by (subst gridRows.simps) (simp add: test)
    then show ?thesis by blast
  qed
qed

text \<open>A cursor at \<open>- 2 ^ 55\<close> is not moved by a step of 1: the sum rounds back.\<close>

lemma absorbed_step: "dadd (Fin (- (2 ^ 55))) (dadd (Fin 1) (Fin 0)) = Fin (- (2 ^ 55))"
proof -
  have "fl (- (2 ^ 55) + 1) = Fin (- (2 ^ 55))"
    using fl_at[of 54 "- (2 ^ 55) + 1"] by (simp add: roundEven_def)
  then show ?thesis by (simp add: fl_simple)
qed

lemma gridRow_absorbed:
  assumes g: "gridSettings.width g = Fin 1" "spacingX g = Fin 0"
  shows "gridRow (Fin 1) g y rects (Fin (- (2 ^ 55))) idc = None"
proof (rule ccontr)
  define far where "far = Fin (- (2 ^ 55))"
  define one where "one = Fin 1"
  assume "gridRow (Fin 1) g y rects (Fin (- (2 ^ 55))) idc \<noteq> None"
  then obtain res where r: "gridRow one g y rects far idc = Some res"
    unfolding far_def one_def by auto
  define P where "P = (\<lambda>(iw::double) (g'::gridSettings) (y::double) (rects::double rect list)
      (x::double) (idc::nat) (res::double rect list \<times> double \<times> nat).
        iw = one \<and> g' = g \<and> x = far \<longrightarrow> False)"
  have t: "dle (dadd far (gridSettings.width g)) one"
    using absorbed_step unfolding g far_def one_def by (simp add: fl_simple)
  have n: "dadd far (dadd (gridSettings.width g) (spacingX g)) = far"
    unfolding g far_def by (rule absorbed_step)
  have "P one g y rects far idc res"
  proof (rule gridRow.raw_induct
        [where P = P and xa = "(((((one, g), y), rects), far), idc)" and ya = res,
          simplified], goal_cases)
    case (1 gr iw' g'' y' rects' x' idc' res')
    show ?case
      unfolding P_def
    proof (intro impI, elim conjE)
      assume h: "iw' = one" "g'' = g" "x' = far"
      from 1(2) have "gr iw' g'' y'
             (rects' @ [\<lparr>rectId = ''grid-'' @ showNat idc', rectX = x', rectY = y',
                        rectW = gridSettings.width g'', rectH = gridSettings.height g''\<rparr>])
             (dadd x' (dadd (gridSettings.width g'') (spacingX g''))) (Suc idc') = Some res'"
        unfolding h using t by (simp only: if_True)
      from 1(1)[OF this, unfolded P_def] h n show False by (simp only: simp_thms)
    qed
  next
    case 2
    show ?case by (rule r)
  qed
  then show False by (simp add: P_def)
qed

section \<open>The grid enumerator\<close>

text \<open>
  Claim C6. \<^verbatim>\<open>calculateGridRects\<close> returns the empty list whenever the cell width or
  the cell height is not positive, whatever the image size, the margins and the spacing;
  and on a 64 by 64 image with 32 by 32 cells, no margin and no spacing it returns exactly
  the four rectangles at (0,0), (32,0), (0,32), (32,32), in that order, with the ids
  grid-0 to grid-3.
\<close>

theorem calculateGridRects_degenerate:
  "(dle (gridSettings.width g) (Fin 0) \<or> dle (gridSettings.height g) (Fin 0) \<longrightarrow>
      calculateGridRects iw ih g = Some []) \<and>
   calculateGridRects (Fin 64) (Fin 64)
     \<lparr>gridSettings.width = Fin 32, height = Fin 32, marginX = Fin 0, marginY = Fin 0,
      spacingX = Fin 0, spacingY = Fin 0\<rparr> =
   Some [\<lparr>rectId = ''grid-0'', rectX = Fin 0, rectY = Fin 0, rectW = Fin 32, rectH = Fin 32\<rparr>,
         \<lparr>rectId = ''grid-1'', rectX = Fin 32, rectY = Fin 0, rectW = Fin 32, rectH = Fin 32\<rparr>,
         \<lparr>rectId = ''grid-2'', rectX = Fin 0, rectY = Fin 32, rectW = Fin 32, rectH = Fin 32\<rparr>,
         \<lparr>rectId = ''grid-3'', rectX = Fin 32, rectY = Fin 32, rectW = Fin 32, rectH = Fin 32\<rparr>]"
proof
  show "dle (gridSettings.width g) (Fin 0) \<or> dle (gridSettings.height g) (Fin 0) \<longrightarrow>
      calculateGridRects iw ih g = Some []"
    by (simp add: calculateGridRects_def)
next
  show "calculateGridRects (Fin 64) (Fin 64)
     \<lparr>gridSettings.width = Fin 32, height = Fin 32, marginX = Fin 0, marginY = Fin 0,
      spacingX = Fin 0, spacingY = Fin 0\<rparr> =
   Some [\<lparr>rectId = ''grid-0'', rectX = Fin 0, rectY = Fin 0, rectW = Fin 32, rectH = Fin 32\<rparr>,
         \<lparr>rectId = ''grid-1'', rectX = Fin 32, rectY = Fin 0, rectW = Fin 32, rectH = Fin 32\<rparr>,
         \<lparr>rectId = ''grid-2'', rectX = Fin 0, rectY = Fin 32, rectW = Fin 32, rectH = Fin 32\<rparr>,
         \<lparr>rectId = ''grid-3'', rectX = Fin 32, rectY = Fin 32, rectW = Fin 32, rectH = Fin 32\<rparr>]"
    by (simp add: calculateGridRects_def gridRows.simps gridRow.simps showNat.simps digitChar_def
        fl_numeral fl_simple)
qed

theorem calculateGridRects_degenerate_witness:
  "calculateGridRects (Fin 64) (Fin 64)
     \<lparr>gridSettings.width = Fin 0, height = Fin 32, marginX = Fin 0, marginY = Fin 0,
      spacingX = Fin 0, spacingY = Fin 0\<rparr>
   = Some []"
  using calculateGridRects_degenerate
    [of "\<lparr>gridSettings.width = Fin 0, height = Fin 32, marginX = Fin 0, marginY = Fin 0,
          spacingX = Fin 0, spacingY = Fin 0\<rparr>" "Fin 64" "Fin 64"]
  by simp

text \<open>
  Claim C10, as amended. Let the image size and the six grid settings be integers of
  magnitude at most \<open>2 ^ 50\<close>, where the arithmetic of doubles is exact. When the cell
  width, the cell height and both steps \<open>width + spacingX\<close> and \<open>height + spacingY\<close> are
  positive, \<^verbatim>\<open>calculateGridRects\<close> returns a list: \<open>m\<close> rows of \<open>n\<close> cells, the cell \<open>k\<close>
  of row \<open>j\<close> at the margin plus \<open>k\<close> horizontal and \<open>j\<close> vertical steps, numbered in
  emission order. The guard looks at the width and the height only: with positive width
  and height and room for the first row, a vertical step that is not positive, or a
  horizontal step that is not positive with room for the first cell, makes the loops run
  forever.
\<close>

theorem calculateGridRects_terminates:
  assumes "gridSettings.width g = numOfInt W" and "gridSettings.height g = numOfInt H"
    and "marginX g = numOfInt MX" and "marginY g = numOfInt MY"
    and "spacingX g = numOfInt SX" and "spacingY g = numOfInt SY"
    and "iw = numOfInt IW" and "ih = numOfInt IH"
    and "\<forall>v \<in> set [W, H, MX, MY, SX, SY, IW, IH]. \<bar>v\<bar> \<le> 2 ^ 50"
  shows
  "(0 < W \<and> 0 < H \<and> 0 < W + SX \<and> 0 < H + SY \<longrightarrow>
      (\<exists>n m. calculateGridRects iw ih g =
         Some (concat (map (\<lambda>j. map (\<lambda>k.
                 \<lparr>rectId = ''grid-'' @ showNat (j * n + k),
                  rectX = numOfInt (MX + int k * (W + SX)),
                  rectY = numOfInt (MY + int j * (H + SY)),
                  rectW = numOfInt W, rectH = numOfInt H\<rparr>)
               [0..<n]) [0..<m])))) \<and>
   (0 < W \<and> 0 < H \<and> MY + H \<le> IH \<and> (H + SY \<le> 0 \<or> W + SX \<le> 0 \<and> MX + W \<le> IW) \<longrightarrow>
      calculateGridRects iw ih g = None)"
proof (intro conjI impI)
  have b: "\<bar>W\<bar> \<le> 2 ^ 50" "\<bar>H\<bar> \<le> 2 ^ 50" "\<bar>MX\<bar> \<le> 2 ^ 50" "\<bar>MY\<bar> \<le> 2 ^ 50"
    "\<bar>SX\<bar> \<le> 2 ^ 50" "\<bar>SY\<bar> \<le> 2 ^ 50" "\<bar>IW\<bar> \<le> 2 ^ 50" "\<bar>IH\<bar> \<le> 2 ^ 50"
    using assms(9) by simp_all
  have mx: "- (2 ^ 50) \<le> MX" "MX \<le> 2 ^ 51" "- (2 ^ 50) \<le> MY" "MY \<le> 2 ^ 51"
    using b(3,4) by (simp_all only: pows abs_le_iff) linarith+
  have b53: "\<bar>W + SX\<bar> < 2 ^ 53" "\<bar>H + SY\<bar> < 2 ^ 53" "\<bar>MX\<bar> < 2 ^ 53" "\<bar>MY\<bar> < 2 ^ 53"
    "\<bar>IW\<bar> < 2 ^ 53" "\<bar>IH\<bar> < 2 ^ 53"
    using b by (simp_all only: pows abs_le_iff abs_less_iff) linarith+
  {
    assume a: "0 < W \<and> 0 < H \<and> 0 < W + SX \<and> 0 < H + SY"
    have guard: "\<not> (dle (gridSettings.width g) (Fin 0) \<or> dle (gridSettings.height g) (Fin 0))"
      using a by (simp add: assms(1,2) numOfInt_def)
    from gridRow_result[OF assms(1) assms(5) _ b(1) b(5) b(7) mx(1) mx(2)] a obtain n where
      n: "\<And>y rects idc. gridRow (numOfInt IW) g y rects (numOfInt MX) idc =
              Some (rects @ gridRowCells g n idc MX (W + SX) y,
                    numOfInt (MX + int n * (W + SX)), idc + n)"
      by blast
    have n': "\<And>y rects idc. gridRow (numOfInt IW) g y rects (marginX g) idc =
              Some (rects @ gridRowCells g n idc MX (W + SX) y,
                    numOfInt (MX + int n * (W + SX)), idc + n)"
      unfolding assms(3) by (rule n)
    from gridRows_result[where iw = "numOfInt IW" and g = g and n = n and MX = MX
        and SXW = "W + SX" and x' = "\<lambda>y. numOfInt (MX + int n * (W + SX))"
        and H = H and SY = SY and IH = IH and Y = MY and rects = "[]" and idc = 0,
        OF n' assms(2) assms(6) _ b(2) b(6) b(8) mx(3) mx(4)] a
    obtain m where "gridRows (numOfInt IW) (numOfInt IH) g [] (marginX g) (numOfInt MY) 0 =
              Some ([] @ concat (map (\<lambda>j. gridRowCells g n (0 + j * n) MX (W + SX)
                                          (numOfInt (MY + int j * (H + SY)))) [0..<m]))"
      by blast
    then have "calculateGridRects iw ih g =
           Some (concat (map (\<lambda>j. map (\<lambda>k.
                   \<lparr>rectId = ''grid-'' @ showNat (j * n + k),
                    rectX = numOfInt (MX + int k * (W + SX)),
                    rectY = numOfInt (MY + int j * (H + SY)),
                    rectW = numOfInt W, rectH = numOfInt H\<rparr>)
                 [0..<n]) [0..<m]))"
      using guard by (simp add: calculateGridRects_def assms(1,2,4,7,8))
    then show "\<exists>n m. calculateGridRects iw ih g =
           Some (concat (map (\<lambda>j. map (\<lambda>k.
                   \<lparr>rectId = ''grid-'' @ showNat (j * n + k),
                    rectX = numOfInt (MX + int k * (W + SX)),
                    rectY = numOfInt (MY + int j * (H + SY)),
                    rectW = numOfInt W, rectH = numOfInt H\<rparr>)
                 [0..<n]) [0..<m]))"
      by blast
  }
  {
    assume c: "0 < W \<and> 0 < H \<and> MY + H \<le> IH \<and> (H + SY \<le> 0 \<or> W + SX \<le> 0 \<and> MX + W \<le> IW)"
    have guard: "\<not> (dle (gridSettings.width g) (Fin 0) \<or> dle (gridSettings.height g) (Fin 0))"
      using c by (simp add: assms(1,2) numOfInt_def)
    have my: "dle (numOfInt MY) (numOfInt MY)" by (simp add: numOfInt_def)
    have mxx: "dle (numOfInt MX) (numOfInt MX)" by (simp add: numOfInt_def)
    have "gridRows (numOfInt IW) (numOfInt IH) g [] (marginX g) (numOfInt MY) 0 = None"
    proof (cases "H + SY \<le> 0")
      case True
      from c have room: "MY + H \<le> IH" by blast
      show ?thesis
        by (rule gridRows_diverges[OF assms(2) assms(6) True room b53(2) b53(4) b53(6) my])
    next
      case False
      with c have h: "W + SX \<le> 0" "MX + W \<le> IW" "MY + H \<le> IH" by auto
      have row: "gridRow (numOfInt IW) g (numOfInt MY) [] (numOfInt MX) 0 = None"
        by (rule gridRow_diverges[OF assms(1) assms(5) h(1) h(2) b53(1) b53(3) b53(5) mxx])
      have "\<bar>MY + H\<bar> < 2 ^ 53" using b(2,4) by (simp only: pows abs_le_iff abs_less_iff) linarith
      then have "dadd (numOfInt MY) (gridSettings.height g) = numOfInt (MY + H)"
        unfolding assms(2) by (rule dadd_int)
      then have t: "dle (dadd (numOfInt MY) (gridSettings.height g)) (numOfInt IH)"
        using h(3) by (simp add: dle_int)
      show ?thesis
        by (subst gridRows.simps) (simp add: t row assms(3))
    qed
    then show "calculateGridRects iw ih g = None"
      using guard by (simp add: calculateGridRects_def assms(4,7,8))
  }
qed

theorem calculateGridRects_terminates_witness:
  "calculateGridRects (numOfInt 64) (numOfInt 64)
     \<lparr>gridSettings.width = numOfInt 32, height = numOfInt 32, marginX = numOfInt 0,
      marginY = numOfInt 0, spacingX = numOfInt 0, spacingY = numOfInt 0\<rparr>
     \<noteq> None \<and>
   calculateGridRects (numOfInt 64) (numOfInt 64)
     \<lparr>gridSettings.width = numOfInt 32, height = numOfInt 32, marginX = numOfInt 0,
      marginY = numOfInt 0, spacingX = numOfInt (- 32), spacingY = numOfInt 0\<rparr>
     = None"
  using calculateGridRects_terminates
    [of "\<lparr>gridSettings.width = numOfInt 32, height = numOfInt 32, marginX = numOfInt 0,
          marginY = numOfInt 0, spacingX = numOfInt 0, spacingY = numOfInt 0\<rparr>"
        32 32 0 0 0 0 "numOfInt 64" 64 "numOfInt 64" 64]
   calculateGridRects_terminates
    [of "\<lparr>gridSettings.width = numOfInt 32, height = numOfInt 32, marginX = numOfInt 0,
          marginY = numOfInt 0, spacingX = numOfInt (- 32), spacingY = numOfInt 0\<rparr>"
        32 32 0 0 "- 32" 0 "numOfInt 64" 64 "numOfInt 64" 64]
  by auto

text \<open>
  Claim C10 as stated fails for a cursor so far from zero that the step is lost in the
  rounding: with cells of 1 by 1, no spacing and a left margin of \<open>- 2 ^ 55\<close>, every
  quantity the claim asks to be positive is positive, and the inner loop never moves.
\<close>

theorem calculateGridRects_terminates_counterexample:
  "dlt (Fin 0) (Fin 1) \<and> dlt (Fin 0) (dadd (Fin 1) (Fin 0)) \<and>
   calculateGridRects (Fin 1) (Fin 1)
     \<lparr>gridSettings.width = Fin 1, height = Fin 1, marginX = Fin (- (2 ^ 55)), marginY = Fin 0,
      spacingX = Fin 0, spacingY = Fin 0\<rparr> = None"
proof -
  let ?g = "\<lparr>gridSettings.width = Fin 1, height = Fin 1, marginX = Fin (- (2 ^ 55)),
             marginY = Fin 0, spacingX = Fin 0, spacingY = Fin 0\<rparr>"
  have row: "gridRow (Fin 1) ?g (Fin 0) [] (Fin (- (2 ^ 55))) 0 = None"
    by (rule gridRow_absorbed) simp_all
  note row' = row[simplified]
  have "gridRows (Fin 1) (Fin 1) ?g [] (Fin (- (2 ^ 55))) (Fin 0) 0 = None"
    by (subst gridRows.simps) (simp add: row' fl_simple)
  then have "calculateGridRects (Fin 1) (Fin 1) ?g = None"
    by (simp add: calculateGridRects_def)
  then show ?thesis by (simp add: fl_simple)
qed

section \<open>The bounds scanner and the frame extractor\<close>

lemma boundsStep_maxX:
  assumes "- 1 \<le> maxXOf s"
  shows "- 1 \<le> maxXOf (boundsStep im y x s) \<and>
         (maxXOf (boundsStep im y x s) = - 1 \<longleftrightarrow> maxXOf s = - 1 \<and> \<not> visibleAt im x y)"
  using assms by (cases s) (auto simp: boundsStep_def visibleAt_def Let_def)

lemma boundsRow_maxX:
  assumes "- 1 \<le> maxXOf s"
  shows "- 1 \<le> maxXOf (fold (\<lambda>x. boundsStep im y x) xs s) \<and>
         (maxXOf (fold (\<lambda>x. boundsStep im y x) xs s) = - 1
            \<longleftrightarrow> maxXOf s = - 1 \<and> (\<forall>x \<in> set xs. \<not> visibleAt im x y))"
  using assms
proof (induction xs arbitrary: s)
  case Nil
  then show ?case by simp
next
  case (Cons x xs)
  from boundsStep_maxX[OF Cons.prems, of im y x]
  have 1: "- 1 \<le> maxXOf (boundsStep im y x s)"
    and 2: "maxXOf (boundsStep im y x s) = - 1 \<longleftrightarrow> maxXOf s = - 1 \<and> \<not> visibleAt im x y"
    by blast+
  from Cons.IH[OF 1] 2 show ?case by auto
qed

lemma boundsScan_maxX:
  assumes "- 1 \<le> maxXOf s"
  shows "- 1 \<le> maxXOf (fold (\<lambda>y. fold (\<lambda>x. boundsStep im y x) xs) ys s) \<and>
         (maxXOf (fold (\<lambda>y. fold (\<lambda>x. boundsStep im y x) xs) ys s) = - 1
            \<longleftrightarrow> maxXOf s = - 1 \<and> (\<forall>y \<in> set ys. \<forall>x \<in> set xs. \<not> visibleAt im x y))"
  using assms
proof (induction ys arbitrary: s)
  case Nil
  then show ?case by simp
next
  case (Cons y ys)
  from boundsRow_maxX[OF Cons.prems, of im y xs]
  have 1: "- 1 \<le> maxXOf (fold (\<lambda>x. boundsStep im y x) xs s)"
    and 2: "maxXOf (fold (\<lambda>x. boundsStep im y x) xs s) = - 1
              \<longleftrightarrow> maxXOf s = - 1 \<and> (\<forall>x \<in> set xs. \<not> visibleAt im x y)"
    by blast+
  from Cons.IH[OF 1] 2 show ?case by auto
qed

lemma getTrimmedBounds_None: "getTrimmedBounds im = None \<longleftrightarrow> allTransparent im"
proof -
  let ?s = "fold (\<lambda>y. fold (\<lambda>x. boundsStep im y x) [0..<imageData.width im])
              [0..<imageData.height im]
              (int (imageData.width im), int (imageData.height im), - 1, - 1)"
  have "maxXOf ?s = - 1 \<longleftrightarrow> allTransparent im"
    using boundsScan_maxX[of "(int (imageData.width im), int (imageData.height im), - 1, - 1)"
        im "[0..<imageData.width im]" "[0..<imageData.height im]"]
    by (simp add: allTransparent_def lessThan_atLeast0)
  moreover have "getTrimmedBounds im = None \<longleftrightarrow> maxXOf ?s = - 1"
    unfolding getTrimmedBounds_def by (cases ?s) (simp split: if_splits)
  ultimately show ?thesis by simp
qed

text \<open>
  Claim C2, as amended. \<^verbatim>\<open>extractFrame\<close> returns \<^verbatim>\<open>null\<close> exactly when the first canvas
  has no 2D context, or the buffer read back, after the enabled colour keys, has no pixel
  with alpha above zero, or trimming is enabled and the trimmed canvas has no 2D context,
  or the encoder hands \<^verbatim>\<open>null\<close> to the \<^verbatim>\<open>toBlob\<close> callback. The fully transparent
  buffer is signalled by \<^verbatim>\<open>null\<close>, not by an exception.
\<close>

theorem extractFrame_absent_iff:
  "extractFrame api rect settings = Inr None \<longleftrightarrow>
     (\<not> getContext2d api \<or>
      (\<exists>drawn. drawAndGetImageData api rect = Inr drawn \<and>
         (let imageData = keyedImage (processing settings) drawn
          in allTransparent imageData \<or>
             (autoTrim (processing settings) \<and> \<not> trimmedGetContext2d api) \<or>
             (\<exists>bnd. getTrimmedBounds imageData = Some bnd \<and>
                toBlob api (if autoTrim (processing settings)
                            then cropImage imageData bnd else imageData) = None))))"
proof (cases "getContext2d api")
  case False
  then show ?thesis by (simp add: extractFrame_def)
next
  case ctx: True
  show ?thesis
  proof (cases "drawAndGetImageData api rect")
    case (Inl e)
    then show ?thesis using ctx by (simp add: extractFrame_def)
  next
    case (Inr drawn)
    let ?im = "keyedImage (processing settings) drawn"
    show ?thesis
    proof (cases "getTrimmedBounds ?im")
      case None
      then have "allTransparent ?im" by (simp add: getTrimmedBounds_None)
      then show ?thesis using ctx Inr None by (simp add: extractFrame_def Let_def)
    next
      case (Some bnd)
      then have "\<not> allTransparent ?im" using getTrimmedBounds_None[of ?im] by simp
      then show ?thesis using ctx Inr Some
        by (auto simp: extractFrame_def Let_def split: option.splits)
    qed
  qed
qed

lemma clear_ex: "allTransparent (keyedImage (processing plainSettings) clearPixel)"
  by (simp add: allTransparent_def keyedImage_def plainSettings_def clearPixel_def visibleAt_def)

theorem extractFrame_absent_iff_witness:
  "extractFrame (encodingApi clearPixel) unitRect plainSettings = Inr None"
  using extractFrame_absent_iff[of "encodingApi clearPixel" unitRect plainSettings] clear_ex
  by (simp add: encodingApi_def)

text \<open>
  Claim C2 as stated fails: with an encoder that returns \<^verbatim>\<open>null\<close>, the result is
  \<^verbatim>\<open>null\<close> although the buffer has an opaque pixel.
\<close>

theorem extractFrame_absent_counterexample:
  "extractFrame (failingEncoderApi opaquePixel) unitRect plainSettings = Inr None \<and>
   \<not> allTransparent (keyedImage (processing plainSettings) opaquePixel)"
  by (simp add: extractFrame_def failingEncoderApi_def encodingApi_def plainSettings_def
      keyedImage_def getTrimmedBounds_def boundsStep_def opaquePixel_def allTransparent_def
      visibleAt_def)

text \<open>
  Claim C5. A frame returned by \<^verbatim>\<open>extractFrame\<close> carries the id of its rectangle; when
  trimming is disabled its trim offset is (0,0) and its trimmed size and original size are
  both the width and height of the rectangle.
\<close>

theorem extractFrame_metadata:
  "extractFrame api rect settings = Inr (Some frame) \<Longrightarrow>
     frameId frame = rectId rect \<and>
     (\<not> autoTrim (processing settings) \<longrightarrow>
        trimOffset frame = (0, 0) \<and>
        trimmedSize frame = (rectW rect, rectH rect) \<and>
        originalSize frame = (rectW rect, rectH rect))"
  by (auto simp: extractFrame_def Let_def split: if_splits sum.splits option.splits)

lemma frame_ex:
  "extractFrame (encodingApi opaquePixel) unitRect plainSettings =
     Inr (Some \<lparr>frameId = ''manual-1'', frameBlob = [0, 0, 0, 255], frameUrl = ''blob:frame'',
                frameRect = unitRect, trimOffset = (0, 0), trimmedSize = (1, 1),
                originalSize = (1, 1)\<rparr>)"
  by (simp add: extractFrame_def encodingApi_def plainSettings_def
      keyedImage_def getTrimmedBounds_def boundsStep_def opaquePixel_def unitRect_def)

theorem extractFrame_metadata_witness:
  "extractFrame (encodingApi opaquePixel) unitRect plainSettings =
     Inr (Some \<lparr>frameId = ''manual-1'', frameBlob = [0, 0, 0, 255], frameUrl = ''blob:frame'',
                frameRect = unitRect, trimOffset = (0, 0), trimmedSize = (1, 1),
                originalSize = (1, 1)\<rparr>) \<and>
   \<not> autoTrim (processing plainSettings) \<and>
   rectId unitRect = ''manual-1'' \<and> (rectW unitRect, rectH unitRect) = (1, 1)"
  using extractFrame_metadata[OF frame_ex] frame_ex
  by (simp add: plainSettings_def unitRect_def)

section \<open>Evaluating the arithmetic on examples\<close>

lemma roundEven_numeral: "roundEven (numeral k) = numeral k" "roundEven 0 = 0" "roundEven 1 = 1"
  using roundEven_of_int[of "numeral k"] roundEven_of_int[of 0] roundEven_of_int[of 1]
  by simp_all

lemmas evals =
  mathMax_def mathPow2_def numOfByte_def numOfInt_def fl_numeral fl_half_numeral fl_simple
  roundEven_numeral

section \<open>Colour keying, pixel by pixel\<close>

lemma keyLoop_length: "length (keyLoop c tol f i d) = length d"
proof (induction c tol f i d rule: keyLoop.induct)
  case (1 c tol f i d)
  show ?case
  proof (cases "i < length d")
    case True
    with 1 show ?thesis by (subst keyLoop.simps) simp
  next
    case False
    then show ?thesis by (subst keyLoop.simps) simp
  qed
qed

lemma keyLoop_nth:
  "j < length d \<Longrightarrow>
   keyLoop c tol f i d ! j =
     (if i \<le> j \<and> (j - i) mod 4 = 3
      then keyAlpha c tol f (d ! (j - 3)) (d ! (j - 2)) (d ! (j - 1)) (d ! j)
      else d ! j)"
proof (induction c tol f i d rule: keyLoop.induct)
  case (1 c tol f i d)
  show ?case
  proof (cases "i < length d")
    case False
    with 1(2) show ?thesis by (subst keyLoop.simps) simp
  next
    case True
    let ?ka = "keyAlpha c tol f (d ! i) (d ! (i + 1)) (d ! (i + 2)) (d ! (i + 3))"
    let ?d' = "if i + 3 < length d then d[i + 3 := ?ka] else d"
    have len: "length ?d' = length d" by simp
    have unfold: "keyLoop c tol f i d = keyLoop c tol f (i + 4) ?d'"
      using True by (subst keyLoop.simps) simp
    have ih: "keyLoop c tol f (i + 4) ?d' ! j =
        (if i + 4 \<le> j \<and> (j - (i + 4)) mod 4 = 3
         then keyAlpha c tol f (?d' ! (j - 3)) (?d' ! (j - 2)) (?d' ! (j - 1)) (?d' ! j)
         else ?d' ! j)"
      using "1.IH"[OF True] "1.prems" len by simp
    consider (later) "i + 4 \<le> j" "(j - (i + 4)) mod 4 = 3"
      | (here) "j = i + 3"
      | (other) "\<not> (i + 4 \<le> j \<and> (j - (i + 4)) mod 4 = 3)" "j \<noteq> i + 3"
      by blast
    then show ?thesis
    proof cases
      case later
      have "(j - (i + 4)) mod 4 \<le> j - (i + 4)" by (rule mod_less_eq_dividend)
      with later have ge: "i + 7 \<le> j" by linarith
      have same: "?d' ! (j - 3) = d ! (j - 3)" "?d' ! (j - 2) = d ! (j - 2)"
        "?d' ! (j - 1) = d ! (j - 1)" "?d' ! j = d ! j"
        using ge by simp_all
      have "j - i = (j - (i + 4)) + 4" using ge by linarith
      then have "(j - i) mod 4 = 3" using later(2) by (simp only: mod_add_self2)
      moreover have "i \<le> j" using ge by linarith
      ultimately have rhs: "i \<le> j \<and> (j - i) mod 4 = 3" by simp
      have "keyLoop c tol f (i + 4) ?d' ! j =
              keyAlpha c tol f (?d' ! (j - 3)) (?d' ! (j - 2)) (?d' ! (j - 1)) (?d' ! j)"
        using ih later by (simp only: if_True simp_thms)
      then show ?thesis
        unfolding unfold using rhs same by (simp only: if_True simp_thms)
    next
      case here
      then have "i + 3 < length d" using "1.prems" by simp
      then have dj: "?d' ! j = ?ka" using here by simp
      have no: "\<not> (i + 4 \<le> j \<and> (j - (i + 4)) mod 4 = 3)" using here by simp
      have rhs: "i \<le> j \<and> (j - i) mod 4 = 3" using here by simp
      have "keyLoop c tol f (i + 4) ?d' ! j = ?d' ! j"
        using ih no by (simp only: if_False simp_thms)
      then have "keyLoop c tol f i d ! j = ?ka"
        unfolding unfold using dj by (simp only:)
      moreover have "j - 3 = i" "j - 2 = i + 1" "j - 1 = i + 2" using here by simp_all
      ultimately show ?thesis using rhs here by (simp only: if_True simp_thms)
    next
      case other
      then have dj: "?d' ! j = d ! j" by simp
      have rhs: "\<not> (i \<le> j \<and> (j - i) mod 4 = 3)"
      proof
        assume h: "i \<le> j \<and> (j - i) mod 4 = 3"
        show False
        proof (cases "i + 4 \<le> j")
          case True
          then have "j - i = (j - (i + 4)) + 4" by linarith
          then have "(j - (i + 4)) mod 4 = 3" using h by (simp only: mod_add_self2)
          with True other(1) show False by simp
        next
          case False
          then have "j - i < 4" using h by linarith
          then have "(j - i) mod 4 = j - i" by simp
          with h have "j = i + 3" by linarith
          with other(2) show False by simp
        qed
      qed
      have "keyLoop c tol f (i + 4) ?d' ! j = ?d' ! j"
        using ih other(1) by (simp only: if_False simp_thms)
      then have "keyLoop c tol f i d ! j = d ! j"
        unfolding unfold using dj by (simp only:)
      then show ?thesis using rhs by (simp only: if_False simp_thms)
    qed
  qed
qed

lemma applyColorKey_length:
  "length (data (applyColorKeyToImageData im c tol f)) = length (data im)"
  by (simp add: applyColorKeyToImageData_def Let_def keyLoop_length)

lemma applyColorKey_data:
  "data (applyColorKeyToImageData im c tol f) = keyLoop c (mathMax (Fin 0) tol) (mathMax (Fin 0) f) 0 (data im)"
  by (simp add: applyColorKeyToImageData_def Let_def)

lemma applyColorKey_alpha:
  assumes "4 * p + 3 < length (data im)"
  shows "data (applyColorKeyToImageData im c tol f) ! (4 * p + 3) =
           keyAlpha c (mathMax (Fin 0) tol) (mathMax (Fin 0) f) (data im ! (4 * p)) (data im ! (4 * p + 1))
             (data im ! (4 * p + 2)) (data im ! (4 * p + 3))"
proof -
  have "(4 * p + 3) mod 4 = 3 mod 4" by (rule mod_mult_self4)
  then have m: "0 \<le> 4 * p + 3 \<and> (4 * p + 3 - 0) mod 4 = 3" by simp
  have s: "4 * p + 3 - 3 = 4 * p" "4 * p + 3 - 2 = 4 * p + 1" "4 * p + 3 - 1 = 4 * p + 2"
    by simp_all
  show ?thesis
    unfolding applyColorKey_data keyLoop_nth[OF assms] using m
    by (simp only: if_True s simp_thms)
qed

lemma applyColorKey_other:
  assumes "j < length (data im)" "j mod 4 \<noteq> 3"
  shows "data (applyColorKeyToImageData im c tol f) ! j = data im ! j"
proof -
  have "\<not> (0 \<le> j \<and> (j - 0) mod 4 = 3)" using assms(2) by simp
  then show ?thesis
    unfolding applyColorKey_data keyLoop_nth[OF assms(1)] by (simp only: if_False)
qed

section \<open>The feather factor for integer tolerance and feather\<close>

lemma unat_clamped_int:
  assumes "0 \<le> k" "k \<le> 255"
  shows "unat (toUint8Clamped (Fin (of_int k))) = nat k"
proof -
  have "max 0 (min 255 (real_of_int k)) = of_int k" using assms by simp
  then have "toUint8Clamped (Fin (of_int k)) = word_of_int k"
    by (simp only: toUint8Clamped.simps roundEven_of_int)
  then show ?thesis
    using assms by (simp add: unat_eq_nat_uint uint_word_of_int take_bit_int_eq_self)
qed

text \<open>The alpha \<open>n\<close> scaled by a factor in 0..1, by one half and by 1, and rounded.\<close>

lemma scaled_nat:
  assumes "0 \<le> y" "y \<le> 1" "n \<le> 255"
  shows "\<exists>k. mathRound (dmul (Fin (real n)) (Fin y)) = Fin (of_int k) \<and> 0 \<le> k \<and> k \<le> int n"
proof -
  have lo: "of_int 0 \<le> real n * y" using assms by simp
  have "real n * y \<le> real n" using assms by (simp add: mult_left_le)
  then have hi: "real n * y \<le> of_int (int n)" by simp
  have "int n < 2 ^ 53" using assms(3) by simp
  from fl_between[OF lo hi _ this] obtain y4 where
    y4: "fl (real n * y) = Fin y4" "0 \<le> y4" "y4 \<le> real n" by auto
  define k where "k = \<lfloor>y4 + 1 / 2\<rfloor>"
  have "y4 + 1 / 2 < real_of_int (int n + 1)" using y4(3) by simp
  then have "k < int n + 1" unfolding k_def by (simp only: floor_less_iff)
  then have k1: "k \<le> int n" by simp
  have "0 \<le> y4 + 1 / 2" using y4(2) by simp
  then have k0: "0 \<le> k" unfolding k_def by simp
  have "mathRound (dmul (Fin (real n)) (Fin y)) = Fin (of_int k)"
    by (simp add: y4(1) k_def)
  then show ?thesis using k0 k1 by blast
qed

lemma half_nat:
  assumes "n \<le> 255"
  shows "mathRound (dmul (Fin (real n)) (Fin (1 / 2))) = Fin (of_int \<lfloor>real n / 2 + 1 / 2\<rfloor>)"
    and "0 \<le> \<lfloor>real n / 2 + 1 / 2\<rfloor>" and "\<lfloor>real n / 2 + 1 / 2\<rfloor> \<le> 255"
proof -
  have "\<bar>int n\<bar> < 2 ^ 53" using assms by simp
  from fl_half[OF this] have "dmul (Fin (real n)) (Fin (1 / 2)) = Fin (real n / 2)" by simp
  then show "mathRound (dmul (Fin (real n)) (Fin (1 / 2))) = Fin (of_int \<lfloor>real n / 2 + 1 / 2\<rfloor>)"
    by simp
  show "0 \<le> \<lfloor>real n / 2 + 1 / 2\<rfloor>" by simp
  have "real n / 2 + 1 / 2 < real_of_int 256" using assms by simp
  then have "\<lfloor>real n / 2 + 1 / 2\<rfloor> < 256" by (simp only: floor_less_iff)
  then show "\<lfloor>real n / 2 + 1 / 2\<rfloor> \<le> 255" by simp
qed

lemma one_nat:
  assumes "n \<le> 255"
  shows "mathRound (dmul (Fin (real n)) (Fin 1)) = Fin (of_int (int n))"
proof -
  have "\<bar>int n\<bar> < 2 ^ 53" using assms by simp
  from fl_int[OF this] have "dmul (Fin (real n)) (Fin 1) = Fin (of_int (int n))" by simp
  moreover have "\<lfloor>real_of_int (int n) + 1 / 2\<rfloor> = int n"
    by (rule floor_unique) simp_all
  ultimately show ?thesis by simp
qed

lemma unat_byte_le: "unat (a::byte) \<le> 255"
  using byte_bound(1)[of a] by linarith

lemma scaled_alpha:
  assumes "0 \<le> y" "y \<le> 1"
  shows "unat (toUint8Clamped (mathRound (dmul (numOfByte a) (Fin y)))) \<le> unat a"
proof -
  from scaled_nat[OF assms unat_byte_le[of a]] obtain k where
    k: "mathRound (dmul (Fin (real (unat a))) (Fin y)) = Fin (of_int k)" "0 \<le> k" "k \<le> int (unat a)"
    by blast
  have "k \<le> 255" using k(3) byte_bound(1)[of a] by linarith
  from unat_clamped_int[OF k(2) this]
  have "unat (toUint8Clamped (mathRound (dmul (numOfByte a) (Fin y)))) = nat k"
    unfolding numOfByte_def k(1) .
  then show ?thesis using k(3) by linarith
qed

lemma int_square_exact:
  assumes "0 \<le> n" "n \<le> 2 ^ 26"
  shows "dmul (numOfInt n) (numOfInt n) = Fin ((of_int n)\<^sup>2)"
proof -
  have "n * n \<le> 2 ^ 26 * 2 ^ 26" using assms by (intro mult_mono) simp_all
  moreover have "0 \<le> n * n" using assms by simp
  ultimately have "\<bar>n * n\<bar> < 2 ^ 53" by simp
  from fl_int[OF this] show ?thesis by (simp add: numOfInt_def power2_eq_square)
qed

lemma band_factor:
  assumes T: "0 \<le> T" "T \<le> 2 ^ 25" and F: "0 < F" "F \<le> 2 ^ 25"
    and v: "(of_int T)\<^sup>2 < v" "v \<le> (of_int T + of_int F)\<^sup>2"
  shows "\<exists>y. ddiv (dsub (mathSqrt (Fin v)) (numOfInt T)) (numOfInt F) = Fin y \<and> 0 \<le> y \<and> y \<le> 1"
proof -
  have v0: "0 \<le> v" using v(1) by (smt (verit) zero_le_power2)
  have s1: "of_int T \<le> sqrt v"
    using v(1) by (intro less_imp_le real_less_rsqrt)
  have "0 \<le> real_of_int T + real_of_int F" using T F by simp
  then have "sqrt v \<le> of_int T + of_int F"
    using v(2) by (intro real_le_lsqrt) simp_all
  then have s2: "sqrt v \<le> of_int (T + F)" by simp
  have b1: "T + F < 2 ^ 53" using T F by simp
  from fl_between[OF s1 s2 T(1) b1] obtain y1 where
    y1: "fl (sqrt v) = Fin y1" "of_int T \<le> y1" "y1 \<le> of_int (T + F)" by auto
  have d: "mathSqrt (Fin v) = Fin y1" using v0 y1(1) by simp
  have lo2: "of_int 0 \<le> y1 - of_int T" using y1(2) by simp
  have hi2: "y1 - of_int T \<le> of_int F" using y1(3) by simp
  have b2: "F < 2 ^ 53" using F by simp
  from fl_between[OF lo2 hi2 _ b2] obtain y2 where
    y2: "fl (y1 - of_int T) = Fin y2" "0 \<le> y2" "y2 \<le> of_int F" by auto
  have Fp: "0 < real_of_int F" using F by simp
  have lo3: "of_int 0 \<le> y2 / of_int F" using y2(2) Fp by simp
  have hi3: "y2 / of_int F \<le> of_int 1" using y2(3) Fp by simp
  from fl_between[OF lo3 hi3] obtain y3 where
    y3: "fl (y2 / of_int F) = Fin y3" "0 \<le> y3" "y3 \<le> 1" by auto
  have "ddiv (dsub (mathSqrt (Fin v)) (numOfInt T)) (numOfInt F) = Fin y3"
    unfolding d using Fp by (simp add: numOfInt_def y2(1) y3(1))
  then show ?thesis using y3 by blast
qed

text \<open>
  The alpha written for a pixel when tolerance and feather are the integers \<open>T\<close> and \<open>F\<close>
  and the squared distance is the double \<open>v\<close>.
\<close>

lemma keyAlpha_int:
  assumes T: "0 \<le> T" "T \<le> 2 ^ 25" and F: "0 < F" "F \<le> 2 ^ 25"
    and d: "distSq c r g b = Fin v"
  shows "(of_int T)\<^sup>2 < v \<Longrightarrow> v \<le> (of_int T + of_int F)\<^sup>2 \<Longrightarrow>
           unat (keyAlpha c (numOfInt T) (numOfInt F) r g b a) \<le> unat a"
    and "sqrt v = of_int T \<Longrightarrow> keyAlpha c (numOfInt T) (numOfInt F) r g b a = 0"
    and "sqrt v = of_int T + of_int F / 2 \<Longrightarrow>
           unat (keyAlpha c (numOfInt T) (numOfInt F) r g b a) = nat \<lfloor>real (unat a) / 2 + 1 / 2\<rfloor>"
    and "of_int T + of_int F \<le> sqrt v \<Longrightarrow> keyAlpha c (numOfInt T) (numOfInt F) r g b a = a"
proof -
  have T26: "T \<le> 2 ^ 26" using T by simp
  have TF: "0 \<le> T + F" "T + F \<le> 2 ^ 26" using T F by simp_all
  have tolSq: "dmul (numOfInt T) (numOfInt T) = Fin ((of_int T)\<^sup>2)"
    by (rule int_square_exact[OF T(1) T26])
  have "\<bar>T + F\<bar> < 2 ^ 53" using T F by simp
  then have sum: "dadd (numOfInt T) (numOfInt F) = numOfInt (T + F)" by (rule dadd_int)
  have "dmul (numOfInt (T + F)) (numOfInt (T + F)) = Fin ((of_int (T + F))\<^sup>2)"
    by (rule int_square_exact[OF TF])
  then have featherSq:
    "dmul (dadd (numOfInt T) (numOfInt F)) (dadd (numOfInt T) (numOfInt F))
       = Fin ((of_int T + of_int F)\<^sup>2)"
    unfolding sum by simp
  have pos: "dlt (Fin 0) (numOfInt F)" using F by (simp add: numOfInt_def)
  have k: "keyAlpha c (numOfInt T) (numOfInt F) r g b a =
             (if v \<le> (of_int T)\<^sup>2 then 0
              else if v \<le> (of_int T + of_int F)\<^sup>2
              then toUint8Clamped (mathRound (dmul (numOfByte a)
                     (ddiv (dsub (mathSqrt (Fin v)) (numOfInt T)) (numOfInt F))))
              else a)"
    unfolding keyAlpha_def Let_def d tolSq featherSq using pos by simp
  have Tr: "0 \<le> real_of_int T" and Fr: "0 < real_of_int F" using T F by simp_all
  {
    assume h: "(of_int T)\<^sup>2 < v" "v \<le> (of_int T + of_int F)\<^sup>2"
    from band_factor[OF T F h] obtain y where
      y: "ddiv (dsub (mathSqrt (Fin v)) (numOfInt T)) (numOfInt F) = Fin y" "0 \<le> y" "y \<le> 1"
      by blast
    have "keyAlpha c (numOfInt T) (numOfInt F) r g b a =
            toUint8Clamped (mathRound (dmul (numOfByte a) (Fin y)))"
      unfolding k y(1) using h by simp
    then show "unat (keyAlpha c (numOfInt T) (numOfInt F) r g b a) \<le> unat a"
      using scaled_alpha[OF y(2) y(3), of a] by simp
  }
  {
    assume h: "sqrt v = of_int T"
    then have "0 \<le> sqrt v" using Tr by simp
    then have "0 \<le> v" by simp
    then have "v = (sqrt v)\<^sup>2" by simp
    then have "v \<le> (of_int T)\<^sup>2" using h by simp
    then show "keyAlpha c (numOfInt T) (numOfInt F) r g b a = 0" unfolding k by simp
  }
  {
    assume h: "sqrt v = of_int T + of_int F / 2"
    then have "0 < sqrt v" using Tr Fr by simp
    then have v0: "0 \<le> v" by simp
    then have ve: "v = (of_int T + of_int F / 2)\<^sup>2" using h by (metis real_sqrt_pow2)
    have "of_int T < of_int T + real_of_int F / 2" "of_int T + real_of_int F / 2 \<le> of_int T + of_int F"
      using Fr by simp_all
    then have "(of_int T)\<^sup>2 < (of_int T + real_of_int F / 2)\<^sup>2"
      "(of_int T + real_of_int F / 2)\<^sup>2 \<le> (of_int T + of_int F)\<^sup>2"
      using Tr Fr by (simp_all add: power_strict_mono power_mono)
    then have br: "\<not> v \<le> (of_int T)\<^sup>2" "v \<le> (of_int T + of_int F)\<^sup>2" unfolding ve by simp_all
    have "\<bar>2 * T + F\<bar> < 2 ^ 53" using T F by simp
    from fl_half[OF this] have "fl (sqrt v) = Fin (of_int T + of_int F / 2)"
      unfolding h by (simp add: add_divide_distrib)
    then have s: "mathSqrt (Fin v) = Fin (of_int T + of_int F / 2)" using v0 by simp
    have "\<bar>F\<bar> < 2 ^ 53" using F by simp
    from fl_half[OF this] have "dsub (mathSqrt (Fin v)) (numOfInt T) = Fin (of_int F / 2)"
      unfolding s by (simp add: numOfInt_def)
    then have t: "ddiv (dsub (mathSqrt (Fin v)) (numOfInt T)) (numOfInt F) = Fin (1 / 2)"
      using Fr by (simp add: numOfInt_def fl_simple)
    note hn = half_nat[OF unat_byte_le[of a]]
    have "keyAlpha c (numOfInt T) (numOfInt F) r g b a =
            toUint8Clamped (Fin (of_int \<lfloor>real (unat a) / 2 + 1 / 2\<rfloor>))"
      unfolding k t numOfByte_def hn(1) using br by (simp only: if_False if_True)
    then show "unat (keyAlpha c (numOfInt T) (numOfInt F) r g b a) = nat \<lfloor>real (unat a) / 2 + 1 / 2\<rfloor>"
      using unat_clamped_int[OF hn(2) hn(3)] by (simp only:)
  }
  {
    assume h: "of_int T + of_int F \<le> sqrt v"
    then have sp: "0 < sqrt v" using Tr Fr by linarith
    then have v0: "0 \<le> v" by simp
    have lt: "(of_int T)\<^sup>2 < (of_int T + real_of_int F)\<^sup>2"
      using Tr Fr by (simp add: power_strict_mono)
    show "keyAlpha c (numOfInt T) (numOfInt F) r g b a = a"
    proof (cases "v \<le> (of_int T + of_int F)\<^sup>2")
      case False
      then have "\<not> v \<le> (of_int T)\<^sup>2" using lt by linarith
      with False show ?thesis unfolding k by simp
    next
      case True
      have "0 \<le> real_of_int T + real_of_int F" using Tr Fr by simp
      then have "sqrt v \<le> of_int T + of_int F" using True by (intro real_le_lsqrt) simp_all
      with h have se: "sqrt v = of_int (T + F)" by simp
      then have ve: "v = (of_int T + of_int F)\<^sup>2" using v0 by (metis real_sqrt_pow2 of_int_add)
      have br: "\<not> v \<le> (of_int T)\<^sup>2" unfolding ve using lt by simp
      have "\<bar>T + F\<bar> < 2 ^ 53" using T F by simp
      from fl_int[OF this] have s: "mathSqrt (Fin v) = Fin (of_int (T + F))"
        using v0 unfolding se[symmetric] by simp
      have "\<bar>F\<bar> < 2 ^ 53" using F by simp
      from fl_int[OF this] have "dsub (mathSqrt (Fin v)) (numOfInt T) = Fin (of_int F)"
        unfolding s by (simp add: numOfInt_def)
      then have t: "ddiv (dsub (mathSqrt (Fin v)) (numOfInt T)) (numOfInt F) = Fin 1"
        using Fr by (simp add: numOfInt_def fl_simple)
      note m = one_nat[OF unat_byte_le[of a]]
      note a255 = byte_bound(1)[of a]
      have "keyAlpha c (numOfInt T) (numOfInt F) r g b a =
              toUint8Clamped (Fin (of_int (int (unat a))))"
        unfolding k t numOfByte_def m using br True by (simp only: if_False if_True)
      then have "unat (keyAlpha c (numOfInt T) (numOfInt F) r g b a) = nat (int (unat a))"
        using unat_clamped_int[OF _ a255] by simp
      then have "unat (keyAlpha c (numOfInt T) (numOfInt F) r g b a) = unat a"
        by (simp only: nat_int)
      then show ?thesis by (simp only: word_unat_eq_iff)
    qed
  }
qed

lemma mathMax_int: "0 \<le> T \<Longrightarrow> mathMax (Fin 0) (numOfInt T) = numOfInt T"
  by (simp add: mathMax_def numOfInt_def)

text \<open>
  Claim C3, as amended. For the pixel \<open>p\<close> of the buffer, with the tolerance and the
  feather raised to 0 when they are negative and \<open>d2\<close> the computed sum of the squared R,
  G, B differences to the target: if \<open>d2 \<le> tol\<^sup>2\<close> the alpha becomes 0; else if the
  feather is positive and \<open>d2 \<le> (tol + f)\<^sup>2\<close> the alpha becomes \<open>round (alpha * t)\<close> with
  \<open>t = (sqrt d2 - tol) / f\<close>, every operation rounded to a double; otherwise the alpha is
  unchanged. When tolerance and feather are integers, the tolerance from 0 to \<open>2 ^ 25\<close>
  and the feather from 1 to \<open>2 ^ 25\<close>, the factor \<open>t\<close> of the feather branch lies in the
  interval from 0 to 1, both ends included, and the alpha does not grow; the alpha is 0 at
  distance exactly \<open>tol\<close>, it is \<open>alpha / 2\<close> rounded to the nearest integer, a half
  upwards, at the midpoint of the band, and it is unchanged at distance \<open>tol + f\<close> or more.
\<close>

theorem applyColorKey_three_branch:
  assumes "4 * p + 3 < length (data im)"
  shows
    "let tol' = mathMax (Fin 0) tol; f' = mathMax (Fin 0) f;
         d2 = distSq target (data im ! (4 * p)) (data im ! (4 * p + 1)) (data im ! (4 * p + 2));
         a = data im ! (4 * p + 3);
         a' = data (applyColorKeyToImageData im target tol f) ! (4 * p + 3);
         t = ddiv (dsub (mathSqrt d2) tol') f'
     in (dle d2 (dmul tol' tol') \<longrightarrow> a' = 0) \<and>
        (\<not> dle d2 (dmul tol' tol') \<and> dlt (Fin 0) f' \<and> dle d2 (dmul (dadd tol' f') (dadd tol' f')) \<longrightarrow>
           a' = toUint8Clamped (mathRound (dmul (numOfByte a) t))) \<and>
        (\<not> dle d2 (dmul tol' tol') \<and>
         \<not> (dlt (Fin 0) f' \<and> dle d2 (dmul (dadd tol' f') (dadd tol' f'))) \<longrightarrow> a' = a) \<and>
        (tol = numOfInt T \<and> f = numOfInt F \<and> 0 \<le> T \<and> T \<le> 2 ^ 25 \<and> 0 < F \<and> F \<le> 2 ^ 25 \<and>
         d2 = Fin v \<longrightarrow>
           ((of_int T)\<^sup>2 < v \<and> v \<le> (of_int T + of_int F)\<^sup>2 \<longrightarrow>
              (\<exists>y. t = Fin y \<and> 0 \<le> y \<and> y \<le> 1) \<and> unat a' \<le> unat a) \<and>
           (sqrt v = of_int T \<longrightarrow> a' = 0) \<and>
           (sqrt v = of_int T + of_int F / 2 \<longrightarrow> unat a' = nat \<lfloor>real (unat a) / 2 + 1 / 2\<rfloor>) \<and>
           (of_int T + of_int F \<le> sqrt v \<longrightarrow> a' = a))"
proof -
  let ?tol = "mathMax (Fin 0) tol"
  let ?f = "mathMax (Fin 0) f"
  let ?r = "data im ! (4 * p)" and ?g = "data im ! (4 * p + 1)" and ?b = "data im ! (4 * p + 2)"
  let ?d2 = "distSq target ?r ?g ?b"
  let ?a = "data im ! (4 * p + 3)"
  let ?a' = "data (applyColorKeyToImageData im target tol f) ! (4 * p + 3)"
  let ?t = "ddiv (dsub (mathSqrt ?d2) ?tol) ?f"
  let ?in = "dle ?d2 (dmul ?tol ?tol)"
  let ?band = "dlt (Fin 0) ?f \<and> dle ?d2 (dmul (dadd ?tol ?f) (dadd ?tol ?f))"
  have a'_eq: "?a' = keyAlpha target ?tol ?f ?r ?g ?b ?a"
    by (rule applyColorKey_alpha[OF assms])
  have c1: "?in \<longrightarrow> ?a' = 0"
    unfolding a'_eq by (simp add: keyAlpha_def Let_def)
  have c2: "\<not> ?in \<and> ?band \<longrightarrow> ?a' = toUint8Clamped (mathRound (dmul (numOfByte ?a) ?t))"
    unfolding a'_eq by (simp add: keyAlpha_def Let_def)
  have c3: "\<not> ?in \<and> \<not> ?band \<longrightarrow> ?a' = ?a"
    unfolding a'_eq by (auto simp: keyAlpha_def Let_def)
  have c4: "tol = numOfInt T \<and> f = numOfInt F \<and> 0 \<le> T \<and> T \<le> 2 ^ 25 \<and> 0 < F \<and> F \<le> 2 ^ 25 \<and>
         ?d2 = Fin v \<longrightarrow>
           ((of_int T)\<^sup>2 < v \<and> v \<le> (of_int T + of_int F)\<^sup>2 \<longrightarrow>
              (\<exists>y. ?t = Fin y \<and> 0 \<le> y \<and> y \<le> 1) \<and> unat ?a' \<le> unat ?a) \<and>
           (sqrt v = of_int T \<longrightarrow> ?a' = 0) \<and>
           (sqrt v = of_int T + of_int F / 2 \<longrightarrow> unat ?a' = nat \<lfloor>real (unat ?a) / 2 + 1 / 2\<rfloor>) \<and>
           (of_int T + of_int F \<le> sqrt v \<longrightarrow> ?a' = ?a)"
  proof (intro impI, elim conjE)
    assume h: "tol = numOfInt T" "f = numOfInt F" "0 \<le> T" "T \<le> 2 ^ 25" "0 < F" "F \<le> 2 ^ 25"
      "?d2 = Fin v"
    have F0: "0 \<le> F" using h(5) by simp
    have tl: "?tol = numOfInt T" unfolding h(1) by (rule mathMax_int[OF h(3)])
    have fe: "?f = numOfInt F" unfolding h(2) by (rule mathMax_int[OF F0])
    note ka = keyAlpha_int[OF h(3) h(4) h(5) h(6) h(7), of ?a]
    have e1: "(of_int T)\<^sup>2 < v \<and> v \<le> (of_int T + of_int F)\<^sup>2 \<longrightarrow>
              (\<exists>y. ?t = Fin y \<and> 0 \<le> y \<and> y \<le> 1) \<and> unat ?a' \<le> unat ?a"
    proof (intro impI, elim conjE)
      assume b: "(of_int T)\<^sup>2 < v" "v \<le> (of_int T + of_int F)\<^sup>2"
      have "\<exists>y. ?t = Fin y \<and> 0 \<le> y \<and> y \<le> 1"
        unfolding tl fe h(7) by (rule band_factor[OF h(3) h(4) h(5) h(6) b])
      moreover have "unat ?a' \<le> unat ?a"
        unfolding a'_eq tl fe by (rule ka(1)[OF b])
      ultimately show "(\<exists>y. ?t = Fin y \<and> 0 \<le> y \<and> y \<le> 1) \<and> unat ?a' \<le> unat ?a" by (rule conjI)
    qed
    have e2: "sqrt v = of_int T \<longrightarrow> ?a' = 0"
      unfolding a'_eq tl fe using ka(2) by (rule impI)
    have e3: "sqrt v = of_int T + of_int F / 2 \<longrightarrow> unat ?a' = nat \<lfloor>real (unat ?a) / 2 + 1 / 2\<rfloor>"
      unfolding a'_eq tl fe using ka(3) by (rule impI)
    have e4: "of_int T + of_int F \<le> sqrt v \<longrightarrow> ?a' = ?a"
      unfolding a'_eq tl fe using ka(4) by (rule impI)
    show "((of_int T)\<^sup>2 < v \<and> v \<le> (of_int T + of_int F)\<^sup>2 \<longrightarrow>
              (\<exists>y. ?t = Fin y \<and> 0 \<le> y \<and> y \<le> 1) \<and> unat ?a' \<le> unat ?a) \<and>
           (sqrt v = of_int T \<longrightarrow> ?a' = 0) \<and>
           (sqrt v = of_int T + of_int F / 2 \<longrightarrow> unat ?a' = nat \<lfloor>real (unat ?a) / 2 + 1 / 2\<rfloor>) \<and>
           (of_int T + of_int F \<le> sqrt v \<longrightarrow> ?a' = ?a)"
      by (rule conjI[OF e1 conjI[OF e2 conjI[OF e3 e4]]])
  qed
  show ?thesis
    unfolding Let_def
    by (rule conjI[OF c1 conjI[OF c2 conjI[OF c3 c4]]])
qed

theorem applyColorKey_three_branch_witness:
  "4 * 0 + 3 < length (data reddishPixel) \<and>
   distSq black 15 0 0 = Fin 225 \<and> sqrt 225 = real_of_int 10 + real_of_int 10 / 2 \<and>
   unat (data (applyColorKeyToImageData reddishPixel black (numOfInt 10) (numOfInt 10)) ! (4 * 0 + 3))
     = 128"
proof -
  have len: "4 * 0 + 3 < length (data reddishPixel)" by (simp add: reddishPixel_def)
  have d: "distSq black 15 0 0 = Fin 225" by (simp add: distSq_def black_def evals)
  have s: "sqrt 225 = real_of_int 10 + real_of_int 10 / 2" by simp
  have hyp: "numOfInt 10 = numOfInt 10 \<and> numOfInt 10 = numOfInt 10 \<and> (0::int) \<le> 10 \<and>
      (10::int) \<le> 2 ^ 25 \<and> (0::int) < 10 \<and> (10::int) \<le> 2 ^ 25 \<and>
      distSq black (data reddishPixel ! (4 * 0)) (data reddishPixel ! (4 * 0 + 1))
        (data reddishPixel ! (4 * 0 + 2)) = Fin 225"
    using d by (simp add: reddishPixel_def)
  from applyColorKey_three_branch[where p = 0 and im = reddishPixel and tol = "numOfInt 10"
      and f = "numOfInt 10" and target = black and T = 10 and F = 10 and v = 225,
      unfolded Let_def, OF len, THEN conjunct2, THEN conjunct2, THEN conjunct2, THEN mp, OF hyp,
      THEN conjunct2, THEN conjunct2, THEN conjunct1, THEN mp, OF s]
  have "unat (data (applyColorKeyToImageData reddishPixel black (numOfInt 10) (numOfInt 10)) ! (4 * 0 + 3))
          = nat \<lfloor>real (unat (data reddishPixel ! (4 * 0 + 3))) / 2 + 1 / 2\<rfloor>" .
  also have "\<dots> = 128" by (simp add: reddishPixel_def)
  finally show ?thesis using len d s by blast
qed

text \<open>
  Claim C3 as stated fails in one detail: at squared distance exactly \<open>(tol + f)\<^sup>2\<close> the
  feather branch is taken and the factor \<open>t\<close> is 1, which is not below 1.
\<close>

theorem feather_factor_counterexample:
  "\<not> dle (distSq black 20 0 0) (dmul (Fin 10) (Fin 10)) \<and>
   dle (distSq black 20 0 0) (dmul (dadd (Fin 10) (Fin 10)) (dadd (Fin 10) (Fin 10))) \<and>
   \<not> dlt (ddiv (dsub (mathSqrt (distSq black 20 0 0)) (Fin 10)) (Fin 10)) (Fin 1) \<and>
   keyAlpha black (Fin 10) (Fin 10) 20 0 0 255 = 255"
  by (simp add: distSq_def black_def keyAlpha_def Let_def evals)

text \<open>
  The factor is computed in doubles. For the pixel (17, 0, 0) with alpha 45, tolerance 10
  and feather 10, the quotient 7 / 10 rounds below 0.7, the product with 45 rounds to
  31.499999999999996, and the alpha written is 31, where the exact product 31.5 would
  have given 32.
\<close>

lemma fl_seven_tenths: "fl (7 / 10) = Fin (3152519739159347 / 4503599627370496)"
  using fl_at[of "- 1" "7 / 10"] by (simp add: roundEven_def power_int_minus)

lemma fl_scaled_45:
  "fl (45 * (3152519739159347 / 4503599627370496)) = Fin (8866461766385663 / 281474976710656)"
  using fl_at[of 4 "45 * (3152519739159347 / 4503599627370496)"]
  by (simp add: roundEven_def power_int_minus)

lemma keyAlpha_rounds_in_doubles: "keyAlpha black (Fin 10) (Fin 10) 17 0 0 45 = 31"
proof -
  have d: "distSq black 17 0 0 = Fin 289" by (simp add: distSq_def black_def evals)
  have s: "mathSqrt (Fin 289) = Fin 17" by (simp add: evals)
  have t: "ddiv (dsub (Fin 17) (Fin 10)) (Fin 10) = Fin (3152519739159347 / 4503599627370496)"
    using fl_seven_tenths by (simp add: evals)
  have m: "dmul (numOfByte 45) (Fin (3152519739159347 / 4503599627370496))
             = Fin (8866461766385663 / 281474976710656)"
    using fl_scaled_45 by (simp add: numOfByte_def)
  have r: "toUint8Clamped (mathRound (Fin (8866461766385663 / 281474976710656))) = 31"
    by (simp add: evals)
  have c: "\<not> dle (Fin 289) (dmul (Fin 10) (Fin 10))" "dlt (Fin 0) (Fin 10)"
    "dle (Fin 289) (dmul (dadd (Fin 10) (Fin 10)) (dadd (Fin 10) (Fin 10)))"
    by (simp_all add: evals)
  show ?thesis
    unfolding keyAlpha_def Let_def d s t m r using c by (simp only: if_False if_True simp_thms)
qed

text \<open>
  The tolerance 9.999999999999998 with the feather \<open>2 ^ (- 50)\<close>: the square of the
  tolerance is below 100, the sum of the two rounds to 10, and 10 minus the tolerance is
  twice the feather.
\<close>

lemma nearTen_band:
  "\<not> dle (Fin 100) (dmul nearTen nearTen)" "dadd nearTen tinyFeather = Fin 10"
  "ddiv (dsub (Fin 10) nearTen) tinyFeather = Fin 2"
proof -
  show "\<not> dle (Fin 100) (dmul nearTen nearTen)"
    using fl_at[of 6 "(10 - 1 / 2 ^ 49) * (10 - 1 / 2 ^ 49)"]
    by (simp add: nearTen_def roundEven_def power_int_minus)
  show "dadd nearTen tinyFeather = Fin 10"
    using fl_at[of 3 "10 - 1 / 2 ^ 49 + 1 / 2 ^ 50"]
    by (simp add: nearTen_def tinyFeather_def roundEven_def power_int_minus)
  show "ddiv (dsub (Fin 10) nearTen) tinyFeather = Fin 2"
    using fl_dyadic[of 1 49] by (simp add: nearTen_def tinyFeather_def fl_numeral)
qed

text \<open>
  Whatever the parameters, a pixel whose alpha is 0 keeps it: the product of 0 and the
  factor is 0 or \<^verbatim>\<open>NaN\<close>, and both are stored as 0.
\<close>

lemma zero_scaled: "toUint8Clamped (mathRound (dmul (numOfByte 0) t)) = 0"
  by (cases t) (simp_all add: numOfByte_def fl_simple roundEven_numeral)

lemma keyAlpha_zero: "keyAlpha c tol f r g b 0 = 0"
  by (simp add: keyAlpha_def Let_def zero_scaled)

lemma transparent_stays:
  assumes "4 * p + 3 < length (data im)" "data im ! (4 * p + 3) = 0"
  shows "data (fold (\<lambda>k im'. applyColorKeyToImageData im' (fst k) (fst (snd k)) (snd (snd k)))
                 keys im) ! (4 * p + 3) = 0"
  using assms
proof (induction keys arbitrary: im)
  case Nil
  then show ?case by simp
next
  case (Cons k keys)
  let ?im1 = "applyColorKeyToImageData im (fst k) (fst (snd k)) (snd (snd k))"
  have len: "4 * p + 3 < length (data ?im1)"
    using Cons.prems(1) by (simp only: applyColorKey_length)
  have "data ?im1 ! (4 * p + 3) = 0"
    unfolding applyColorKey_alpha[OF Cons.prems(1)] Cons.prems(2) by (rule keyAlpha_zero)
  from Cons.IH[OF len this] show ?case by simp
qed

text \<open>
  Claim C9 does not hold of the code. With the tolerance 9.999999999999998 and the feather
  \<open>2 ^ (- 50)\<close>, a pixel at distance 10 from the target is in the feather band, the
  factor \<open>t\<close>, which the code's comment places in 0..1, is 2, and the pixel's alpha goes
  from 100 to 200.
\<close>

theorem colorKey_alpha_grows:
  "data darkRedPixel ! 3 = 100 \<and>
   ddiv (dsub (mathSqrt (distSq black 10 0 0)) nearTen) tinyFeather = Fin 2 \<and>
   data (applyColorKeyToImageData darkRedPixel black nearTen tinyFeather) ! 3 = 200"
proof -
  have len: "4 * 0 + 3 < length (data darkRedPixel)" by (simp add: darkRedPixel_def)
  have tl: "mathMax (Fin 0) nearTen = nearTen" by (simp add: mathMax_def nearTen_def)
  have fe: "mathMax (Fin 0) tinyFeather = tinyFeather" by (simp add: mathMax_def tinyFeather_def)
  have d: "distSq black 10 0 0 = Fin 100" by (simp add: distSq_def black_def evals)
  have s: "mathSqrt (Fin 100) = Fin 10" by (simp add: evals)
  have sq: "dmul (Fin 10) (Fin 10) = Fin 100" by (simp add: evals)
  have r: "toUint8Clamped (mathRound (dmul (numOfByte 100) (Fin 2))) = 200"
    by (simp add: evals)
  have c: "dlt (Fin 0) tinyFeather" "dle (Fin 100) (Fin 100)"
    by (simp_all add: tinyFeather_def)
  have k: "keyAlpha black nearTen tinyFeather 10 0 0 100 = 200"
    unfolding keyAlpha_def Let_def d s nearTen_band(2,3) sq r
    using nearTen_band(1) c by (simp only: if_False if_True simp_thms)
  have px: "data darkRedPixel ! (4 * 0) = 10" "data darkRedPixel ! (4 * 0 + 1) = 0"
    "data darkRedPixel ! (4 * 0 + 2) = 0" "data darkRedPixel ! (4 * 0 + 3) = 100"
    by (simp_all add: darkRedPixel_def)
  have "data (applyColorKeyToImageData darkRedPixel black nearTen tinyFeather) ! (4 * 0 + 3) = 200"
    unfolding applyColorKey_alpha[OF len] tl fe px by (rule k)
  moreover have "ddiv (dsub (mathSqrt (distSq black 10 0 0)) nearTen) tinyFeather = Fin 2"
    unfolding d s by (rule nearTen_band(3))
  ultimately show ?thesis using px(4) by simp
qed

lemma applyColorKeys_fold:
  "applyColorKeysToImageData im cs tol f =
     fold (\<lambda>color im'. applyColorKeyToImageData im' color tol f) cs im"
  by (simp add: applyColorKeysToImageData_def)

lemma applyColorKey_record:
  "applyColorKeyToImageData im c tol f = im\<lparr>data := data (applyColorKeyToImageData im c tol f)\<rparr>"
  by (simp add: applyColorKeyToImageData_def Let_def)

lemma applyColorKeys_record:
  "applyColorKeysToImageData im cs tol f =
     im\<lparr>data := data (applyColorKeysToImageData im cs tol f)\<rparr>"
  unfolding applyColorKeys_fold
proof (induction cs arbitrary: im)
  case Nil
  then show ?case by simp
next
  case (Cons c cs)
  let ?im1 = "applyColorKeyToImageData im c tol f"
  have "fold (\<lambda>color im'. applyColorKeyToImageData im' color tol f) cs ?im1 =
        ?im1\<lparr>data := data (fold (\<lambda>color im'. applyColorKeyToImageData im' color tol f) cs ?im1)\<rparr>"
    by (rule Cons.IH)
  also have "\<dots> = im\<lparr>data := data (fold (\<lambda>color im'. applyColorKeyToImageData im' color tol f) cs ?im1)\<rparr>"
    by (subst applyColorKey_record) simp
  finally show ?case by simp
qed

lemma applyColorKeys_pixel:
  "length (data (applyColorKeysToImageData im cs tol f)) = length (data im) \<and>
   (\<forall>j < length (data im). j mod 4 \<noteq> 3 \<longrightarrow>
      data (applyColorKeysToImageData im cs tol f) ! j = data im ! j) \<and>
   (\<forall>p. 4 * p + 3 < length (data im) \<longrightarrow>
      data (applyColorKeysToImageData im cs tol f) ! (4 * p + 3) =
        fold (\<lambda>c a. keyAlpha c (mathMax (Fin 0) tol) (mathMax (Fin 0) f) (data im ! (4 * p)) (data im ! (4 * p + 1))
                      (data im ! (4 * p + 2)) a) cs (data im ! (4 * p + 3)))"
  unfolding applyColorKeys_fold
proof (induction cs arbitrary: im)
  case Nil
  then show ?case by simp
next
  case (Cons c cs)
  let ?im1 = "applyColorKeyToImageData im c tol f"
  have len: "length (data ?im1) = length (data im)" by (rule applyColorKey_length)
  have rgb: "data ?im1 ! (4 * p) = data im ! (4 * p)" "data ?im1 ! (4 * p + 1) = data im ! (4 * p + 1)"
    "data ?im1 ! (4 * p + 2) = data im ! (4 * p + 2)" if "4 * p + 3 < length (data im)" for p
  proof -
    have "(4 * p) mod 4 \<noteq> 3" "(4 * p + 1) mod 4 \<noteq> 3" "(4 * p + 2) mod 4 \<noteq> 3" by presburger+
    then show "data ?im1 ! (4 * p) = data im ! (4 * p)" "data ?im1 ! (4 * p + 1) = data im ! (4 * p + 1)"
      "data ?im1 ! (4 * p + 2) = data im ! (4 * p + 2)"
      using that by (simp_all add: applyColorKey_other)
  qed
  note ih = Cons.IH[of ?im1, unfolded len]
  show ?case
  proof (intro conjI allI impI)
    show "length (data (fold (\<lambda>color im'. applyColorKeyToImageData im' color tol f) (c # cs) im)) = length (data im)"
      using ih by simp
  next
    fix j assume "j < length (data im)" "j mod 4 \<noteq> 3"
    then show "data (fold (\<lambda>color im'. applyColorKeyToImageData im' color tol f) (c # cs) im) ! j = data im ! j"
      using ih applyColorKey_other[of j im c tol f] by simp
  next
    fix p assume p: "4 * p + 3 < length (data im)"
    from ih p have "data (fold (\<lambda>color im'. applyColorKeyToImageData im' color tol f) cs ?im1) ! (4 * p + 3) =
        fold (\<lambda>c a. keyAlpha c (mathMax (Fin 0) tol) (mathMax (Fin 0) f) (data ?im1 ! (4 * p)) (data ?im1 ! (4 * p + 1))
                      (data ?im1 ! (4 * p + 2)) a) cs (data ?im1 ! (4 * p + 3))"
      by blast
    then show "data (fold (\<lambda>color im'. applyColorKeyToImageData im' color tol f) (c # cs) im) ! (4 * p + 3) =
        fold (\<lambda>c a. keyAlpha c (mathMax (Fin 0) tol) (mathMax (Fin 0) f) (data im ! (4 * p)) (data im ! (4 * p + 1))
                      (data im ! (4 * p + 2)) a) (c # cs) (data im ! (4 * p + 3))"
      unfolding rgb[OF p] applyColorKey_alpha[OF p] by simp
  qed
qed

lemma hardKey_fold:
  assumes "\<forall>c \<in> set cs. \<not> inFeatherBand c tol f r g b"
  shows "fold (\<lambda>c a. keyAlpha c (mathMax (Fin 0) tol) (mathMax (Fin 0) f) r g b a) cs a =
           (if \<exists>c \<in> set cs. dle (distSq c r g b) (dmul (mathMax (Fin 0) tol) (mathMax (Fin 0) tol)) then 0 else a)"
  using assms
proof (induction cs arbitrary: a)
  case Nil
  then show ?case by simp
next
  case (Cons c cs)
  from Cons.prems have nb: "\<not> inFeatherBand c tol f r g b" by simp
  have k: "keyAlpha c (mathMax (Fin 0) tol) (mathMax (Fin 0) f) r g b a =
             (if dle (distSq c r g b) (dmul (mathMax (Fin 0) tol) (mathMax (Fin 0) tol)) then 0 else a)"
    using nb unfolding inFeatherBand_def keyAlpha_def Let_def
    by auto
  have "fold (\<lambda>c a. keyAlpha c (mathMax (Fin 0) tol) (mathMax (Fin 0) f) r g b a) (c # cs) a =
        fold (\<lambda>c a. keyAlpha c (mathMax (Fin 0) tol) (mathMax (Fin 0) f) r g b a) cs
          (keyAlpha c (mathMax (Fin 0) tol) (mathMax (Fin 0) f) r g b a)"
    by simp
  also have "\<dots> = (if \<exists>c \<in> set cs. dle (distSq c r g b) (dmul (mathMax (Fin 0) tol) (mathMax (Fin 0) tol)) then 0
            else keyAlpha c (mathMax (Fin 0) tol) (mathMax (Fin 0) f) r g b a)"
    using Cons.IH[of "keyAlpha c (mathMax (Fin 0) tol) (mathMax (Fin 0) f) r g b a"] Cons.prems by simp
  also have "\<dots> = (if \<exists>c' \<in> set (c # cs). dle (distSq c' r g b) (dmul (mathMax (Fin 0) tol) (mathMax (Fin 0) tol)) then 0 else a)"
    unfolding k by auto
  finally show ?case .
qed

lemma twice_alpha:
  assumes p: "4 * p + 3 < length (data im)"
    and nb: "\<forall>c \<in> set cs. \<not> inFeatherBand c tol f (data im ! (4 * p)) (data im ! (4 * p + 1))
                                (data im ! (4 * p + 2))"
  shows "data (applyColorKeysToImageData (applyColorKeysToImageData im cs tol f) cs tol f) ! (4 * p + 3)
         = data (applyColorKeysToImageData im cs tol f) ! (4 * p + 3)"
proof -
  let ?im1 = "applyColorKeysToImageData im cs tol f"
  note once = applyColorKeys_pixel[of im cs tol f]
  note twice = applyColorKeys_pixel[of ?im1 cs tol f]
  have len: "length (data ?im1) = length (data im)" using once by blast
  have "(4 * p) mod 4 \<noteq> 3" "(4 * p + 1) mod 4 \<noteq> 3" "(4 * p + 2) mod 4 \<noteq> 3" by presburger+
  then have rgb: "data ?im1 ! (4 * p) = data im ! (4 * p)" "data ?im1 ! (4 * p + 1) = data im ! (4 * p + 1)"
    "data ?im1 ! (4 * p + 2) = data im ! (4 * p + 2)"
    using once p by simp_all
  have a1: "data ?im1 ! (4 * p + 3) =
        fold (\<lambda>c a. keyAlpha c (mathMax (Fin 0) tol) (mathMax (Fin 0) f) (data im ! (4 * p)) (data im ! (4 * p + 1))
                      (data im ! (4 * p + 2)) a) cs (data im ! (4 * p + 3))"
    using once p by blast
  have a2: "data (applyColorKeysToImageData ?im1 cs tol f) ! (4 * p + 3) =
        fold (\<lambda>c a. keyAlpha c (mathMax (Fin 0) tol) (mathMax (Fin 0) f) (data im ! (4 * p)) (data im ! (4 * p + 1))
                      (data im ! (4 * p + 2)) a) cs (data ?im1 ! (4 * p + 3))"
    using twice p len rgb by simp
  show ?thesis
    unfolding a2 unfolding a1 hardKey_fold[OF nb] by simp
qed

text \<open>
  Claim C1, as amended. Applying the same colour-key list twice gives the same buffer as
  applying it once whenever the feather is not positive; and for any feather, the alpha of a
  pixel whose colour is in the feather band of none of the targets is the same after two
  applications as after one.
\<close>

theorem colorKeys_idempotent:
  "(\<not> dlt (Fin 0) feather \<longrightarrow>
      applyColorKeysToImageData (applyColorKeysToImageData im cs tol feather) cs tol feather
        = applyColorKeysToImageData im cs tol feather) \<and>
   (\<forall>p. 4 * p + 3 < length (data im) \<and>
        (\<forall>c \<in> set cs. \<not> inFeatherBand c tol feather (data im ! (4 * p)) (data im ! (4 * p + 1))
                                (data im ! (4 * p + 2))) \<longrightarrow>
      data (applyColorKeysToImageData (applyColorKeysToImageData im cs tol feather) cs tol feather)
          ! (4 * p + 3)
        = data (applyColorKeysToImageData im cs tol feather) ! (4 * p + 3))"
proof (intro conjI allI impI)
  fix p
  assume "4 * p + 3 < length (data im) \<and>
        (\<forall>c \<in> set cs. \<not> inFeatherBand c tol feather (data im ! (4 * p)) (data im ! (4 * p + 1))
                                (data im ! (4 * p + 2)))"
  then show "data (applyColorKeysToImageData (applyColorKeysToImageData im cs tol feather) cs tol feather)
          ! (4 * p + 3)
        = data (applyColorKeysToImageData im cs tol feather) ! (4 * p + 3)"
    using twice_alpha[of p im cs tol feather] by blast
next
  assume hard: "\<not> dlt (Fin 0) feather"
  let ?im1 = "applyColorKeysToImageData im cs tol feather"
  let ?im2 = "applyColorKeysToImageData ?im1 cs tol feather"
  note once = applyColorKeys_pixel[of im cs tol feather]
  note twice = applyColorKeys_pixel[of ?im1 cs tol feather]
  have len1: "length (data ?im1) = length (data im)" using once by blast
  have len2: "length (data ?im2) = length (data im)" using twice len1 by simp
  have nb: "\<not> inFeatherBand c tol feather r g b" for c r g b
    using hard by (cases feather) (simp_all add: inFeatherBand_def Let_def mathMax_def)
  have "data ?im2 = data ?im1"
  proof (rule nth_equalityI)
    show "length (data ?im2) = length (data ?im1)" using len1 len2 by simp
  next
    fix j assume "j < length (data ?im2)"
    then have j: "j < length (data im)" using len2 by simp
    show "data ?im2 ! j = data ?im1 ! j"
    proof (cases "j mod 4 = 3")
      case True
      then have e: "j = 4 * (j div 4) + 3" by presburger
      have "4 * (j div 4) + 3 < length (data im)" using j e by simp
      from twice_alpha[OF this, of cs tol feather] nb show ?thesis using e by simp
    next
      case False
      then show ?thesis using twice once j len1 by simp
    qed
  qed
  moreover have "?im2 = ?im1\<lparr>data := data ?im2\<rparr>" by (rule applyColorKeys_record)
  ultimately show "?im2 = ?im1" by simp
qed

text \<open>
  Claim C1 as stated fails: a pixel in the middle of the feather band has its alpha halved
  by each application, 255 to 128 and then to 64.
\<close>

theorem colorKeys_idempotent_counterexample:
  "applyColorKeysToImageData
     (applyColorKeysToImageData reddishPixel [black] (Fin 10) (Fin 10)) [black] (Fin 10) (Fin 10)
     \<noteq> applyColorKeysToImageData reddishPixel [black] (Fin 10) (Fin 10)"
  by (simp add: applyColorKeysToImageData_def applyColorKeyToImageData_def reddishPixel_def
      black_def keyLoop.simps keyAlpha_def distSq_def Let_def evals)

theorem colorKeys_idempotent_witness:
  "\<not> dlt (Fin 0) (Fin 0) \<and>
   applyColorKeysToImageData
     (applyColorKeysToImageData reddishPixel [black] (Fin 10) (Fin 0)) [black] (Fin 10) (Fin 0)
     = applyColorKeysToImageData reddishPixel [black] (Fin 10) (Fin 0) \<and>
   4 * 0 + 3 < length (data reddishPixel) \<and>
   \<not> inFeatherBand black (Fin 10) (Fin 2) 15 0 0 \<and>
   data (applyColorKeysToImageData
           (applyColorKeysToImageData reddishPixel [black] (Fin 10) (Fin 2)) [black] (Fin 10) (Fin 2))
       ! (4 * 0 + 3)
     = data (applyColorKeysToImageData reddishPixel [black] (Fin 10) (Fin 2)) ! (4 * 0 + 3)"
proof -
  have b: "\<not> inFeatherBand black (Fin 10) (Fin 2) 15 0 0"
    by (simp add: inFeatherBand_def black_def distSq_def Let_def evals)
  have a: "4 * 0 + 3 < length (data reddishPixel) \<and>
        (\<forall>c \<in> set [black]. \<not> inFeatherBand c (Fin 10) (Fin 2) (data reddishPixel ! (4 * 0))
             (data reddishPixel ! (4 * 0 + 1)) (data reddishPixel ! (4 * 0 + 2)))"
    using b by (simp add: reddishPixel_def)
  have c: "\<not> dlt (Fin 0) (Fin 0)" by simp
  from colorKeys_idempotent[of "Fin 0" reddishPixel "[black]" "Fin 10", THEN conjunct1, rule_format, OF c]
    colorKeys_idempotent[of "Fin 2" reddishPixel "[black]" "Fin 10", THEN conjunct2, rule_format, OF a] a b c
  show ?thesis by simp
qed

section \<open>Island detection\<close>

lemma idx_mod: "x < w \<Longrightarrow> (y * w + x) mod w = (x::nat)"
  by simp

lemma idx_div: "x < w \<Longrightarrow> (y * w + x) div w = (y::nat)"
  by simp

lemma neighbors_adjacent:
  assumes w: "0 < w" and n: "n \<in> set (neighbors w c)" and n0: "0 \<le> n"
  shows "adjacent w c (nat n)"
proof -
  let ?cx = "c mod w" and ?cy = "c div w"
  have c: "c = ?cy * w + ?cx" by simp
  from n consider (up) "n = int c - int w" | (down) "n = int c + int w"
    | (left) "?cx > 0" "n = int c - 1" | (right) "?cx + 1 < w" "n = int c + 1"
    | (none) "n = - 1"
    unfolding neighbors_def Let_def by (auto split: if_splits)
  then show ?thesis
  proof cases
    case up
    with n0 have ge: "w \<le> c" and m: "nat n = c - w" by linarith+
    have "(c - w) mod w = c mod w" using ge by (simp add: le_mod_geq)
    moreover have "c div w = Suc ((c - w) div w)" using ge w by (simp add: le_div_geq)
    ultimately show ?thesis unfolding adjacent_def m by simp
  next
    case down
    then have m: "nat n = c + w" by linarith
    show ?thesis unfolding adjacent_def m using w by simp
  next
    case left
    then have m: "nat n = c - 1" by linarith
    have "c - 1 = ?cy * w + (?cx - 1)" using left(1) c by linarith
    moreover have "?cx - 1 < w" using w left(1) by (meson less_imp_diff_less mod_less_divisor)
    ultimately have "(c - 1) mod w = ?cx - 1" "(c - 1) div w = ?cy"
      using idx_mod[of "?cx - 1" w ?cy] idx_div[of "?cx - 1" w ?cy] by simp_all
    then show ?thesis unfolding adjacent_def m using left(1) by simp
  next
    case right
    then have m: "nat n = c + 1" by linarith
    have "c + 1 = ?cy * w + (?cx + 1)" using c by linarith
    then have "(c + 1) mod w = ?cx + 1" "(c + 1) div w = ?cy"
      using idx_mod[OF right(1), of ?cy] idx_div[OF right(1), of ?cy] by simp_all
    then show ?thesis unfolding adjacent_def m by simp
  next
    case none
    with n0 show ?thesis by simp
  qed
qed

lemma neighbors_down: "int (c + w) \<in> set (neighbors w c)"
  unfolding neighbors_def Let_def by (simp only: list.set insert_iff of_nat_add simp_thms)

lemma neighbors_right: "c mod w + 1 < w \<Longrightarrow> int (c + 1) \<in> set (neighbors w c)"
proof -
  assume a: "c mod w + 1 < w"
  then have "int (c mod w) < int w - 1" by linarith
  then have "neighbors w c = [int c - int w, int c + int w, if c mod w > 0 then int c - 1 else - 1, int c + 1]"
    unfolding neighbors_def Let_def by (simp only: if_True)
  moreover have "int (c + 1) = int c + 1" by simp
  ultimately show ?thesis by (simp only: list.set insert_iff simp_thms)
qed

lemma visitNeighbor_fold:
  assumes "fold (visitNeighbor d) ns (stack, visited) = (stack', visited')"
  shows "length visited' = length visited \<and>
     (\<forall>i < length visited. visited' ! i \<longleftrightarrow> visited ! i \<or> (int i \<in> set ns \<and> \<not> isTransparent d i)) \<and>
     set stack' = set stack \<union>
        {i. i < length visited \<and> int i \<in> set ns \<and> \<not> isTransparent d i \<and> \<not> visited ! i}"
  using assms
proof (induction ns arbitrary: stack visited)
  case Nil
  then show ?case by auto
next
  case (Cons n ns)
  let ?cond = "n \<ge> 0 \<and> n < int (length visited) \<and> \<not> visited ! nat n \<and> \<not> isTransparent d (nat n)"
  show ?case
  proof (cases ?cond)
    case True
    then have v: "visitNeighbor d n (stack, visited) = (nat n # stack, visited[nat n := True])"
      by (simp add: visitNeighbor_def)
    have nn: "nat n < length visited" using True by linarith
    have eq: "int i = n \<longleftrightarrow> i = nat n" for i using True by linarith
    from Cons.prems have "fold (visitNeighbor d) ns (nat n # stack, visited[nat n := True]) = (stack', visited')"
      by (simp add: v)
    from Cons.IH[OF this]
    have ih: "length visited' = length visited"
      "\<forall>i < length visited. visited' ! i \<longleftrightarrow> (visited[nat n := True]) ! i \<or> (int i \<in> set ns \<and> \<not> isTransparent d i)"
      "set stack' = set (nat n # stack) \<union>
        {i. i < length visited \<and> int i \<in> set ns \<and> \<not> isTransparent d i \<and> \<not> (visited[nat n := True]) ! i}"
      by simp_all
    have upd: "(visited[nat n := True]) ! i \<longleftrightarrow> visited ! i \<or> i = nat n" if "i < length visited" for i
      using that nn by (simp add: nth_list_update eq_commute)
    show ?thesis
    proof (intro conjI allI impI)
      show "length visited' = length visited" by (rule ih(1))
    next
      fix i assume i: "i < length visited"
      show "visited' ! i \<longleftrightarrow> visited ! i \<or> (int i \<in> set (n # ns) \<and> \<not> isTransparent d i)"
        using ih(2) i upd[OF i] eq[of i] True by auto
    next
      show "set stack' = set stack \<union>
        {i. i < length visited \<and> int i \<in> set (n # ns) \<and> \<not> isTransparent d i \<and> \<not> visited ! i}"
        unfolding ih(3) using upd eq True nn by auto
    qed
  next
    case False
    then have v: "visitNeighbor d n (stack, visited) = (stack, visited)"
      by (simp add: visitNeighbor_def)
    from Cons.prems have "fold (visitNeighbor d) ns (stack, visited) = (stack', visited')"
      by (simp add: v)
    from Cons.IH[OF this]
    have ih: "length visited' = length visited"
      "\<forall>i < length visited. visited' ! i \<longleftrightarrow> visited ! i \<or> (int i \<in> set ns \<and> \<not> isTransparent d i)"
      "set stack' = set stack \<union>
        {i. i < length visited \<and> int i \<in> set ns \<and> \<not> isTransparent d i \<and> \<not> visited ! i}"
      by simp_all
    have no: "\<not> (int i = n \<and> \<not> isTransparent d i \<and> \<not> visited ! i)" if "i < length visited" for i
      using False that by auto
    show ?thesis
    proof (intro conjI allI impI)
      show "length visited' = length visited" by (rule ih(1))
    next
      fix i assume i: "i < length visited"
      show "visited' ! i \<longleftrightarrow> visited ! i \<or> (int i \<in> set (n # ns) \<and> \<not> isTransparent d i)"
        using ih(2) i no[OF i] by auto
    next
      show "set stack' = set stack \<union>
        {i. i < length visited \<and> int i \<in> set (n # ns) \<and> \<not> isTransparent d i \<and> \<not> visited ! i}"
        unfolding ih(3) using no by auto
    qed
  qed
qed

lemma fold_rows:
  "fold (\<lambda>y. fold (\<lambda>x. f y x) [0..<w]) [0..<h] s = fold (\<lambda>k. f (k div w) (k mod w)) [0..<w * h] s"
  for w h :: nat
proof (induction h arbitrary: s)
  case 0
  then show ?case by simp
next
  case (Suc h)
  let ?g = "\<lambda>k. f (k div w) (k mod w)"
  have "[0..<w * h + w] = [0..<w * h] @ [w * h..<w * h + w]"
    by (rule upt_add_eq_append) simp
  moreover have "map (\<lambda>x. x + w * h) [0..<w] = [w * h..<w + w * h]"
    by (rule map_add_upt)
  moreover have "w * Suc h = w * h + w" "w + w * h = w * h + w" by simp_all
  ultimately have split: "[0..<w * Suc h] = [0..<w * h] @ map (\<lambda>x. x + w * h) [0..<w]"
    by (simp only:)
  have row: "fold ?g (map (\<lambda>x. x + w * h) [0..<w]) t = fold (\<lambda>x. f h x) [0..<w] t" for t
    unfolding fold_map
  proof (rule fold_cong)
    fix x assume "x \<in> set [0..<w]"
    then have "x < w" by simp
    then have "(x + w * h) div w = h" "(x + w * h) mod w = x" by simp_all
    then show "(?g \<circ> (\<lambda>x. x + w * h)) x = f h x" by (simp only: comp_apply)
  qed (rule refl)+
  have "fold (\<lambda>y. fold (\<lambda>x. f y x) [0..<w]) [0..<Suc h] s =
        fold (\<lambda>x. f h x) [0..<w] (fold (\<lambda>y. fold (\<lambda>x. f y x) [0..<w]) [0..<h] s)"
    by simp
  also have "\<dots> = fold (\<lambda>x. f h x) [0..<w] (fold ?g [0..<w * h] s)"
    by (simp only: Suc.IH)
  also have "\<dots> = fold ?g (map (\<lambda>x. x + w * h) [0..<w]) (fold ?g [0..<w * h] s)"
    by (simp only: row)
  also have "\<dots> = fold ?g ([0..<w * h] @ map (\<lambda>x. x + w * h) [0..<w]) s"
    by (simp only: fold_append comp_apply)
  also have "\<dots> = fold ?g [0..<w * Suc h] s"
    by (simp only: split)
  finally show ?case .
qed

lemma fill_step:
  assumes comp: "component w d N C"
    and inv: "fillInv w d N C (cur # stack) visited"
    and fold: "fold (visitNeighbor d) (neighbors w cur) (stack, visited) = (stack', visited')"
  shows "fillInv w d N C stack' visited'"
    and "\<forall>i < N. visited ! i \<longrightarrow> visited' ! i"
    and "\<forall>i < N. visited' ! i \<longrightarrow> visited ! i \<or> i \<in> C"
proof -
  from inv have len: "length visited = N" and curC: "cur \<in> C" and stackC: "set stack \<subseteq> C"
    and stackV: "\<forall>i \<in> set stack. visited ! i"
    and closed: "\<And>c n. c \<in> C \<Longrightarrow> visited ! c \<Longrightarrow> c \<noteq> cur \<Longrightarrow> c \<notin> set stack \<Longrightarrow>
          n \<in> set (neighbors w c) \<Longrightarrow> 0 \<le> n \<Longrightarrow> n < int N \<Longrightarrow> \<not> isTransparent d (nat n)
          \<Longrightarrow> visited ! nat n"
    unfolding fillInv_def by auto
  from comp have sub: "\<And>c. c \<in> C \<Longrightarrow> c < N"
    and compClosed: "\<And>c n. c \<in> C \<Longrightarrow> n \<in> set (neighbors w c) \<Longrightarrow> 0 \<le> n \<Longrightarrow> n < int N \<Longrightarrow>
          \<not> isTransparent d (nat n) \<Longrightarrow> nat n \<in> C"
    unfolding component_def by auto
  from visitNeighbor_fold[OF fold] len
  have len': "length visited' = N"
    and vis: "\<And>i. i < N \<Longrightarrow> visited' ! i \<longleftrightarrow>
                visited ! i \<or> (int i \<in> set (neighbors w cur) \<and> \<not> isTransparent d i)"
    and stk: "set stack' = set stack \<union>
        {i. i < N \<and> int i \<in> set (neighbors w cur) \<and> \<not> isTransparent d i \<and> \<not> visited ! i}"
    by auto
  have newC: "i \<in> C" if "i < N" "int i \<in> set (neighbors w cur)" "\<not> isTransparent d i" for i
    using compClosed[OF curC that(2)] that by simp
  show mono: "\<forall>i < N. visited ! i \<longrightarrow> visited' ! i" using vis by blast
  show sound: "\<forall>i < N. visited' ! i \<longrightarrow> visited ! i \<or> i \<in> C" using vis newC by blast
  have s1: "set stack' \<subseteq> C" unfolding stk using stackC newC by blast
  have s2: "\<forall>i \<in> set stack'. visited' ! i"
  proof
    fix i assume i: "i \<in> set stack'"
    then have "i \<in> C" using s1 by blast
    then have "i < N" by (rule sub)
    with i show "visited' ! i" unfolding stk using vis stackV by blast
  qed
  have s3: "visited' ! nat n"
    if c: "c \<in> C" "visited' ! c" "c \<notin> set stack'"
      and n: "n \<in> set (neighbors w c)" "0 \<le> n" "n < int N" "\<not> isTransparent d (nat n)" for c n
  proof -
    have cN: "c < N" using c(1) by (rule sub)
    have nN: "nat n < N" using n(2,3) by linarith
    have nn: "int (nat n) = n" using n(2) by simp
    have cstack: "c \<notin> set stack" using c(3) unfolding stk by blast
    show ?thesis
    proof (cases "visited ! c")
      case True
      show ?thesis
      proof (cases "c = cur")
        case True
        then show ?thesis using vis[OF nN] n nn by simp
      next
        case False
        from closed[OF c(1) True False cstack n] show ?thesis using vis[OF nN] by blast
      qed
    next
      case False
      with c(2) vis[OF cN] have "int c \<in> set (neighbors w cur) \<and> \<not> isTransparent d c" by blast
      with False cN have "c \<in> set stack'" unfolding stk by blast
      with c(3) show ?thesis by blast
    qed
  qed
  show "fillInv w d N C stack' visited'"
    unfolding fillInv_def using len' s1 s2 s3 by blast
qed

lemma fill_step_new:
  assumes len: "length visited = N"
    and fold: "fold (visitNeighbor d) (neighbors w cur) (stack, visited) = (stack', visited')"
  shows "length visited' = N" and "set stack \<subseteq> set stack'"
    and "\<forall>i < N. visited' ! i \<and> \<not> visited ! i \<longrightarrow> i \<in> set stack'"
proof -
  from visitNeighbor_fold[OF fold] len
  have len': "length visited' = N"
    and vis: "\<And>i. i < N \<Longrightarrow> visited' ! i \<longleftrightarrow>
                visited ! i \<or> (int i \<in> set (neighbors w cur) \<and> \<not> isTransparent d i)"
    and stk: "set stack' = set stack \<union>
        {i. i < N \<and> int i \<in> set (neighbors w cur) \<and> \<not> isTransparent d i \<and> \<not> visited ! i}"
    by auto
  show "length visited' = N" by (rule len')
  show "set stack \<subseteq> set stack'" unfolding stk by blast
  show "\<forall>i < N. visited' ! i \<and> \<not> visited ! i \<longrightarrow> i \<in> set stack'"
    unfolding stk using vis by blast
qed

lemma floodFill_Cons:
  "floodFill w d (cur # stack) visited box =
     floodFill w d (fst (fold (visitNeighbor d) (neighbors w cur) (stack, visited)))
       (snd (fold (visitNeighbor d) (neighbors w cur) (stack, visited))) (grow w cur box)"
  by (cases box) (simp add: floodFill.simps grow_def Let_def)

lemma floodFill_Nil: "floodFill w d [] visited box = (visited, box)"
  by (simp add: floodFill.simps)

lemma floodFill_steps [case_names Nil Cons]:
  assumes "\<And>visited box. P [] visited box"
    and "\<And>cur stack visited box.
           P (fst (fold (visitNeighbor d) (neighbors w cur) (stack, visited)))
             (snd (fold (visitNeighbor d) (neighbors w cur) (stack, visited))) (grow w cur box)
           \<Longrightarrow> P (cur # stack) visited box"
  shows "P stack visited box"
proof -
  have "w' = w \<and> d' = d \<longrightarrow> P stack visited box" for w' d'
  proof (induction w' d' stack visited box rule: floodFill.induct)
    case (1 w' d' visited box)
    then show ?case using assms(1) by simp
  next
    case (2 w' d' cur stack visited box)
    show ?case
    proof
      assume e: "w' = w \<and> d' = d"
      obtain minX maxX minY maxY where b: "box = (minX, maxX, minY, maxY)"
        by (cases box) auto
      have g: "grow w cur box =
          (if int (cur mod w) < minX then int (cur mod w) else minX,
           if maxX < int (cur mod w) then int (cur mod w) else maxX,
           if int (cur div w) < minY then int (cur div w) else minY,
           if maxY < int (cur div w) then int (cur div w) else maxY)"
        unfolding b grow_def Let_def by simp
      from e have w': "w' = w" and d': "d' = d" by simp_all
      note ih = "2.IH"[OF b[symmetric] refl refl refl refl refl refl, unfolded w' d',
          THEN mp, OF conjI[OF refl refl]]
      have "P (fst (fold (visitNeighbor d) (neighbors w cur) (stack, visited)))
             (snd (fold (visitNeighbor d) (neighbors w cur) (stack, visited))) (grow w cur box)"
        unfolding g by (rule ih)
      then show "P (cur # stack) visited box" by (rule assms(2))
    qed
  qed
  then show ?thesis by simp
qed

lemma grow_covers: "covers w (grow w cur box) cur" "covers w box i \<Longrightarrow> covers w (grow w cur box) i"
  by (cases box; auto simp: covers_def grow_def Let_def)+

lemma grow_inside: "inside B box \<Longrightarrow> covers w B cur \<Longrightarrow> inside B (grow w cur box)"
  by (cases box; cases B) (auto simp: covers_def grow_def inside_def Let_def)

lemma floodFill_spec:
  assumes comp: "component w d N C"
    and bound: "\<forall>c \<in> C. covers w B c"
  shows "fillInv w d N C stack visited \<Longrightarrow> inside B box \<Longrightarrow>
         floodFill w d stack visited box = (visited', box') \<Longrightarrow>
           length visited' = N \<and>
           (\<forall>i < N. visited ! i \<longrightarrow> visited' ! i) \<and>
           (\<forall>i < N. visited' ! i \<longrightarrow> visited ! i \<or> i \<in> C) \<and>
           fillInv w d N C [] visited' \<and>
           inside B box' \<and>
           (\<forall>i. covers w box i \<longrightarrow> covers w box' i) \<and>
           (\<forall>i \<in> set stack. covers w box' i) \<and>
           (\<forall>i < N. visited' ! i \<and> \<not> visited ! i \<longrightarrow> covers w box' i)"
proof (induction stack visited box rule: floodFill_steps[where w = w and d = d])
  case (Nil visited box)
  then show ?case by (auto simp: floodFill_Nil fillInv_def)
next
  case (Cons cur stack visited box)
  obtain stack1 visited1 where f: "fold (visitNeighbor d) (neighbors w cur) (stack, visited) = (stack1, visited1)"
    by (cases "fold (visitNeighbor d) (neighbors w cur) (stack, visited)") auto
  from Cons.prems(1) have len: "length visited = N" and curC: "cur \<in> C"
    unfolding fillInv_def by auto
  note st = fill_step[OF comp Cons.prems(1) f]
  note nw = fill_step_new[OF len f]
  have ins: "inside B (grow w cur box)"
    using grow_inside[OF Cons.prems(2)] bound curC by blast
  have run: "floodFill w d stack1 visited1 (grow w cur box) = (visited', box')"
    using Cons.prems(3) unfolding floodFill_Cons f by simp
  from Cons.IH[unfolded f fst_conv snd_conv, OF st(1) ins run]
  have ih: "length visited' = N"
    "\<forall>i < N. visited1 ! i \<longrightarrow> visited' ! i"
    "\<forall>i < N. visited' ! i \<longrightarrow> visited1 ! i \<or> i \<in> C"
    "fillInv w d N C [] visited'"
    "inside B box'"
    "\<forall>i. covers w (grow w cur box) i \<longrightarrow> covers w box' i"
    "\<forall>i \<in> set stack1. covers w box' i"
    "\<forall>i < N. visited' ! i \<and> \<not> visited1 ! i \<longrightarrow> covers w box' i"
    by blast+
  have c1: "\<forall>i < N. visited ! i \<longrightarrow> visited' ! i" using st(2) ih(2) by blast
  have c2: "\<forall>i < N. visited' ! i \<longrightarrow> visited ! i \<or> i \<in> C" using st(3) ih(3) by blast
  have c3: "\<forall>i. covers w box i \<longrightarrow> covers w box' i" using grow_covers(2) ih(6) by blast
  have c4: "\<forall>i \<in> set (cur # stack). covers w box' i"
    using grow_covers(1)[of w cur box] ih(6) ih(7) nw(2) by auto
  have c5: "\<forall>i < N. visited' ! i \<and> \<not> visited ! i \<longrightarrow> covers w box' i"
    using ih(8) ih(7) nw(3) by blast
  show ?case using ih(1) c1 c2 ih(4) ih(5) c3 c4 c5 by blast
qed

lemma point_facts:
  assumes "x0 + 3 \<le> w" "y0 + 3 \<le> h" "i \<le> 2" "j \<le> 2"
  shows "((y0 + j) * w + (x0 + i)) mod w = x0 + i"
    and "((y0 + j) * w + (x0 + i)) div w = y0 + j"
    and "(y0 + j) * w + (x0 + i) < w * h"
    and "(y0 + j) * w + (x0 + i) \<in> squareSet w (w * h) x0 y0"
proof -
  have xi: "x0 + i < w" using assms by linarith
  show m: "((y0 + j) * w + (x0 + i)) mod w = x0 + i" by (rule idx_mod[OF xi])
  show dv: "((y0 + j) * w + (x0 + i)) div w = y0 + j" by (rule idx_div[OF xi])
  have "y0 + j + 1 \<le> h" using assms by linarith
  then have "(y0 + j + 1) * w \<le> h * w" by (rule mult_le_mono1)
  moreover have "(y0 + j) * w + (x0 + i) < (y0 + j + 1) * w" using xi by simp
  ultimately show lt: "(y0 + j) * w + (x0 + i) < w * h" by (simp add: mult.commute)
  show "(y0 + j) * w + (x0 + i) \<in> squareSet w (w * h) x0 y0"
    unfolding squareSet_def inSquare_def mem_Collect_eq m dv using lt assms(3,4) by simp
qed

lemma squareSet_point:
  assumes "c \<in> squareSet w N x0 y0"
  shows "\<exists>i j. i \<le> 2 \<and> j \<le> 2 \<and> c = (y0 + j) * w + (x0 + i)"
proof -
  from assms have s: "x0 \<le> c mod w" "c mod w < x0 + 3" "y0 \<le> c div w" "c div w < y0 + 3"
    unfolding squareSet_def inSquare_def by auto
  have "c = (c div w) * w + c mod w" by simp
  also have "\<dots> = (y0 + (c div w - y0)) * w + (x0 + (c mod w - x0))" using s by simp
  finally have "c = (y0 + (c div w - y0)) * w + (x0 + (c mod w - x0))" .
  moreover have "c mod w - x0 \<le> 2" "c div w - y0 \<le> 2" using s by linarith+
  ultimately show ?thesis by blast
qed

lemma square_fill:
  assumes x0: "x0 + 3 \<le> w" and y0: "y0 + 3 \<le> h"
    and comp: "component w d (w * h) (squareSet w (w * h) x0 y0)"
    and len: "length visited = w * h"
    and fresh: "\<forall>i \<in> squareSet w (w * h) x0 y0. \<not> visited ! i"
    and run: "floodFill w d [y0 * w + x0] (visited[y0 * w + x0 := True])
                (int x0, int x0, int y0, int y0) = (visited', box')"
  shows "length visited' = w * h"
    and "\<forall>i < w * h. visited' ! i \<longleftrightarrow> visited ! i \<or> i \<in> squareSet w (w * h) x0 y0"
    and "box' = (int x0, int x0 + 2, int y0, int y0 + 2)"
proof -
  let ?N = "w * h" and ?S = "squareSet w (w * h) x0 y0" and ?s0 = "y0 * w + x0"
  let ?v0 = "visited[?s0 := True]"
  let ?B = "(int x0, int x0 + 2, int y0, int y0 + 2)"
  let ?pt = "\<lambda>i j. (y0 + j) * w + (x0 + i)"
  note pf = point_facts[OF x0 y0]
  have s0: "?s0 mod w = x0" "?s0 div w = y0" "?s0 < ?N" "?s0 \<in> ?S"
    using pf[of 0 0] by simp_all
  have solid: "\<And>c. c \<in> ?S \<Longrightarrow> \<not> isTransparent d c"
    using comp unfolding component_def by blast
  have v0: "?v0 ! i \<longleftrightarrow> visited ! i \<or> i = ?s0" if "i < ?N" for i
    using that len s0(3) by (simp add: nth_list_update eq_commute)
  have inv0: "fillInv w d ?N ?S [?s0] ?v0"
    unfolding fillInv_def
  proof (intro conjI ballI impI)
    show "length ?v0 = ?N" using len by simp
    show "set [?s0] \<subseteq> ?S" using s0(4) by simp
  next
    fix i assume "i \<in> set [?s0]"
    then show "?v0 ! i" using v0[OF s0(3)] by simp
  next
    fix c n assume c: "c \<in> ?S" "?v0 ! c \<and> c \<notin> set [?s0]"
    then have "c < ?N" unfolding squareSet_def by simp
    from v0[OF this] c have "visited ! c" by simp
    with fresh c(1) have False by blast
    then show "visited[?s0 := True] ! nat n" ..
  qed
  have bound: "\<forall>c \<in> ?S. covers w ?B c"
    unfolding squareSet_def inSquare_def covers_def by auto
  have ins0: "inside ?B (int x0, int x0, int y0, int y0)"
    unfolding inside_def by simp
  from floodFill_spec[OF comp bound inv0 ins0 run]
  have r: "length visited' = ?N"
    "\<forall>i < ?N. ?v0 ! i \<longrightarrow> visited' ! i"
    "\<forall>i < ?N. visited' ! i \<longrightarrow> ?v0 ! i \<or> i \<in> ?S"
    "fillInv w d ?N ?S [] visited'"
    "inside ?B box'"
    "\<forall>i \<in> set [?s0]. covers w box' i"
    "\<forall>i < ?N. visited' ! i \<and> \<not> ?v0 ! i \<longrightarrow> covers w box' i"
    by blast+
  from r(4) have closed: "\<And>c n. c \<in> ?S \<Longrightarrow> visited' ! c \<Longrightarrow> n \<in> set (neighbors w c) \<Longrightarrow>
      0 \<le> n \<Longrightarrow> n < int ?N \<Longrightarrow> \<not> isTransparent d (nat n) \<Longrightarrow> visited' ! nat n"
    unfolding fillInv_def by simp
  have step: "visited' ! m"
    if "c \<in> ?S" "visited' ! c" "int m \<in> set (neighbors w c)" "m \<in> ?S" for c m
  proof -
    have "m < ?N" using that(4) unfolding squareSet_def by simp
    then have "int m < int ?N" by linarith
    from closed[OF that(1,2,3) _ this] solid[OF that(4)] show ?thesis by simp
  qed
  have seed: "visited' ! ?pt 0 0" using r(2) v0[OF s0(3)] s0(3) by simp
  have row: "i \<le> 2 \<Longrightarrow> visited' ! ?pt i 0" for i
  proof (induction i)
    case 0
    show ?case by (rule seed)
  next
    case (Suc i)
    then have i: "i \<le> 2" by simp
    have "?pt i 0 mod w + 1 < w" using pf(1)[OF i, of 0] Suc.prems x0 by simp
    then have "int (?pt i 0 + 1) \<in> set (neighbors w (?pt i 0))" by (rule neighbors_right)
    moreover have "?pt i 0 + 1 = ?pt (Suc i) 0" by simp
    ultimately have "int (?pt (Suc i) 0) \<in> set (neighbors w (?pt i 0))" by simp
    from step[OF pf(4)[OF i, of 0] Suc.IH[OF i] this pf(4)[OF Suc.prems, of 0]]
    show ?case by simp
  qed
  have col: "i \<le> 2 \<Longrightarrow> j \<le> 2 \<Longrightarrow> visited' ! ?pt i j" for i j
  proof (induction j)
    case 0
    then show ?case using row by simp
  next
    case (Suc j)
    then have j: "j \<le> 2" by simp
    have "int (?pt i j + w) \<in> set (neighbors w (?pt i j))" by (rule neighbors_down)
    moreover have "?pt i j + w = ?pt i (Suc j)" by simp
    ultimately have "int (?pt i (Suc j)) \<in> set (neighbors w (?pt i j))" by simp
    from step[OF pf(4)[OF Suc.prems(1) j] Suc.IH[OF Suc.prems(1) j] this
        pf(4)[OF Suc.prems(1) Suc.prems(2)]]
    show ?case by simp
  qed
  have all: "visited' ! c" if "c \<in> ?S" for c
    using squareSet_point[OF that] col by blast
  show "length visited' = ?N" by (rule r(1))
  show "\<forall>i < ?N. visited' ! i \<longleftrightarrow> visited ! i \<or> i \<in> ?S"
  proof (intro allI impI iffI)
    fix i assume i: "i < ?N" and "visited' ! i"
    with r(3) have "?v0 ! i \<or> i \<in> ?S" by blast
    then show "visited ! i \<or> i \<in> ?S" using v0[OF i] s0(4) by blast
  next
    fix i assume i: "i < ?N" and "visited ! i \<or> i \<in> ?S"
    then show "visited' ! i" using r(2) v0[OF i] all by blast
  qed
  obtain minX maxX minY maxY where b: "box' = (minX, maxX, minY, maxY)"
    by (cases box') auto
  have lo: "covers w box' ?s0" using r(6) by simp
  have far: "covers w box' (?pt 2 2)"
  proof -
    have ne: "?pt 2 2 \<noteq> ?s0" using pf(1)[of 2 2] s0(1) by (metis add_cancel_right_right le_refl zero_neq_numeral)
    have "\<not> visited ! ?pt 2 2" using fresh pf(4)[of 2 2] by simp
    then have "\<not> ?v0 ! ?pt 2 2" using v0[OF pf(3)[of 2 2]] ne by simp
    moreover have "visited' ! ?pt 2 2" using col[of 2 2] by simp
    ultimately show ?thesis using r(7) pf(3)[of 2 2] by simp
  qed
  have "minX \<le> int x0" "minY \<le> int y0"
    using lo s0(1,2) unfolding b covers_def by simp_all
  moreover have "int x0 + 2 \<le> maxX" "int y0 + 2 \<le> maxY"
    using far pf(1)[of 2 2] pf(2)[of 2 2] unfolding b covers_def by simp_all
  moreover have "int x0 \<le> minX" "maxX \<le> int x0 + 2" "int y0 \<le> minY" "maxY \<le> int y0 + 2"
    using r(5) unfolding b inside_def by simp_all
  ultimately show "box' = ?B" unfolding b by simp
qed

lemma solid_iff:
  assumes ts: "twoOpaqueSquares im x1 y1 x2 y2" and i: "i < imageData.width im * imageData.height im"
  shows "\<not> isTransparent (data im) i \<longleftrightarrow>
           i \<in> squareSet (imageData.width im) (imageData.width im * imageData.height im) x1 y1 \<or>
           i \<in> squareSet (imageData.width im) (imageData.width im * imageData.height im) x2 y2"
proof -
  let ?w = "imageData.width im" and ?h = "imageData.height im"
  from ts have len: "length (data im) = 4 * (?w * ?h)"
    and op: "\<And>x y. y < ?h \<Longrightarrow> x < ?w \<Longrightarrow>
          (data im ! ((y * ?w + x) * 4 + 3) \<noteq> 0) = (inSquare x1 y1 x y \<or> inSquare x2 y2 x y)"
    and w3: "x1 + 3 \<le> ?w"
    unfolding twoOpaqueSquares_def by auto
  have w: "0 < ?w" using w3 by linarith
  have y: "i div ?w < ?h" using i w by (simp add: less_mult_imp_div_less mult.commute)
  have x: "i mod ?w < ?w" using w by simp
  have e: "(i div ?w) * ?w + i mod ?w = i" by simp
  have "i * 4 + 3 < length (data im)" using i len by linarith
  then have "\<not> isTransparent (data im) i \<longleftrightarrow> data im ! (i * 4 + 3) \<noteq> 0"
    by (simp add: isTransparent_def)
  also have "\<dots> \<longleftrightarrow> inSquare x1 y1 (i mod ?w) (i div ?w) \<or> inSquare x2 y2 (i mod ?w) (i div ?w)"
    using op[OF y x] unfolding e .
  finally show ?thesis using i unfolding squareSet_def by simp
qed

lemma adjacent_apart:
  assumes "squaresApart x1 y1 x2 y2"
    and "adjacent w c m"
    and "inSquare x1 y1 (c mod w) (c div w)"
  shows "\<not> inSquare x2 y2 (m mod w) (m div w)"
  using assms unfolding adjacent_def inSquare_def squaresApart_def by linarith

lemma square_component:
  assumes ts: "twoOpaqueSquares im x1 y1 x2 y2"
  shows "component (imageData.width im) (data im) (imageData.width im * imageData.height im)
           (squareSet (imageData.width im) (imageData.width im * imageData.height im) x1 y1)"
    and "component (imageData.width im) (data im) (imageData.width im * imageData.height im)
           (squareSet (imageData.width im) (imageData.width im * imageData.height im) x2 y2)"
proof -
  let ?w = "imageData.width im" and ?N = "imageData.width im * imageData.height im"
  let ?S1 = "squareSet ?w ?N x1 y1" and ?S2 = "squareSet ?w ?N x2 y2"
  from ts have sep: "squaresApart x1 y1 x2 y2"
    and w3: "x1 + 3 \<le> ?w"
    unfolding twoOpaqueSquares_def by auto
  have sep': "squaresApart x2 y2 x1 y1" using sep unfolding squaresApart_def by blast
  have w: "0 < ?w" using w3 by linarith
  note si = solid_iff[OF ts]
  have closed1: "nat n \<in> ?S1"
    if "c \<in> ?S1" "n \<in> set (neighbors ?w c)" "0 \<le> n" "n < int ?N" "\<not> isTransparent (data im) (nat n)"
    for c n
  proof -
    have nN: "nat n < ?N" using that(3,4) by linarith
    from si[OF nN] that(5) have "nat n \<in> ?S1 \<or> nat n \<in> ?S2" by blast
    moreover have "nat n \<notin> ?S2"
      using adjacent_apart[OF sep neighbors_adjacent[OF w that(2,3)]] that(1)
      unfolding squareSet_def by simp
    ultimately show ?thesis by blast
  qed
  have closed2: "nat n \<in> ?S2"
    if "c \<in> ?S2" "n \<in> set (neighbors ?w c)" "0 \<le> n" "n < int ?N" "\<not> isTransparent (data im) (nat n)"
    for c n
  proof -
    have nN: "nat n < ?N" using that(3,4) by linarith
    from si[OF nN] that(5) have "nat n \<in> ?S1 \<or> nat n \<in> ?S2" by blast
    moreover have "nat n \<notin> ?S1"
      using adjacent_apart[OF sep' neighbors_adjacent[OF w that(2,3)]] that(1)
      unfolding squareSet_def by simp
    ultimately show ?thesis by blast
  qed
  have sub: "?S1 \<subseteq> {..<?N}" "?S2 \<subseteq> {..<?N}" unfolding squareSet_def by auto
  have sol: "\<forall>c \<in> ?S1. \<not> isTransparent (data im) c" "\<forall>c \<in> ?S2. \<not> isTransparent (data im) c"
    using si sub by auto
  show "component ?w (data im) ?N ?S1"
    unfolding component_def using sub(1) sol(1) closed1 by blast
  show "component ?w (data im) ?N ?S2"
    unfolding component_def using sub(2) sol(2) closed2 by blast
qed

lemma squareSet_min:
  assumes "i \<in> squareSet w N x0 y0"
  shows "y0 * w + x0 \<le> i"
proof -
  from assms have s: "x0 \<le> i mod w" "y0 \<le> i div w"
    unfolding squareSet_def inSquare_def by auto
  have "y0 * w \<le> (i div w) * w" using s(2) by (rule mult_le_mono1)
  then have "y0 * w + x0 \<le> (i div w) * w + i mod w" using s(1) by linarith
  then show ?thesis by simp
qed

lemma squareSet_disjoint:
  assumes "squaresApart x1 y1 x2 y2"
  shows "i \<in> squareSet w N x1 y1 \<Longrightarrow> i \<notin> squareSet w N x2 y2"
  using assms unfolding squareSet_def inSquare_def squaresApart_def by auto

lemma corner_order:
  assumes "y1 < y2 \<or> (y1 = y2 \<and> x1 < x2)" "x1 < (w::nat)"
  shows "y1 * w + x1 < y2 * w + x2"
proof (cases "y1 < y2")
  case True
  then have "y1 + 1 \<le> y2" by simp
  then have "(y1 + 1) * w \<le> y2 * w" by (rule mult_le_mono1)
  moreover have "y1 * w + x1 < (y1 + 1) * w" using assms(2) by simp
  ultimately show ?thesis by linarith
next
  case False
  with assms(1) show ?thesis by simp
qed

lemma islandStep_skip:
  assumes "0 < imageData.width im"
    and "visited ! k \<or> isTransparent (data im) k"
  shows "islandStep im minW minH (k div imageData.width im) (k mod imageData.width im)
           (visited, rects, idc) = (visited, rects, idc)"
  using assms(2) by (simp add: islandStep_def Let_def)

lemma islandStep_fill:
  assumes "\<not> visited ! k" "\<not> isTransparent (data im) k"
    and "floodFill (imageData.width im) (data im) [k] (visited[k := True])
           (int (k mod imageData.width im), int (k mod imageData.width im),
            int (k div imageData.width im), int (k div imageData.width im))
         = (visited', x, x + 2, y, y + 2)"
  shows "islandStep im minW minH (k div imageData.width im) (k mod imageData.width im)
           (visited, rects, idc) =
         (if minW \<le> 3 \<and> minH \<le> 3
          then (visited',
                rects @ [\<lparr>rectId = ''island-'' @ showNat idc, rectX = x, rectY = y,
                           rectW = 3, rectH = 3\<rparr>], Suc idc)
          else (visited', rects, idc))"
  using assms by (simp add: islandStep_def Let_def)

lemma showNat_small: "showNat 0 = ''0''" "showNat 1 = ''1''" "showNat (Suc 0) = ''1''"
  by (simp_all add: showNat.simps digitChar_def)

lemma scan_step:
  assumes ts: "twoOpaqueSquares im x1 y1 x2 y2"
    and ord: "y1 < y2 \<or> (y1 = y2 \<and> x1 < x2)"
    and k: "k < imageData.width im * imageData.height im"
    and inv: "scanState im x1 y1 x2 y2 minW minH k st"
  shows "scanState im x1 y1 x2 y2 minW minH (Suc k)
           (islandStep im minW minH (k div imageData.width im) (k mod imageData.width im) st)"
proof -
  let ?w = "imageData.width im" and ?h = "imageData.height im"
  let ?N = "?w * ?h" and ?d = "data im"
  let ?S1 = "squareSet ?w ?N x1 y1" and ?S2 = "squareSet ?w ?N x2 y2"
  let ?s1 = "y1 * ?w + x1" and ?s2 = "y2 * ?w + x2"
  obtain visited rects idc where st: "st = (visited, rects, idc)" by (cases st) auto
  from ts have sep: "squaresApart x1 y1 x2 y2"
    and in1: "x1 + 3 \<le> ?w" "y1 + 3 \<le> ?h" and in2: "x2 + 3 \<le> ?w" "y2 + 3 \<le> ?h"
    unfolding twoOpaqueSquares_def by auto
  have sep': "squaresApart x2 y2 x1 y1" using sep unfolding squaresApart_def by blast
  have w: "0 < ?w" using in1 by linarith
  have s12: "?s1 < ?s2" using corner_order[OF ord] in1 by simp
  note p1 = point_facts[OF in1, of 0 0, simplified]
  note p2 = point_facts[OF in2, of 0 0, simplified]
  note si = solid_iff[OF ts]
  note comp = square_component[OF ts]
  from inv have len: "length visited = ?N"
    unfolding scanState_def Let_def st by simp
  have skip: "scanState im x1 y1 x2 y2 minW minH (Suc k)
           (islandStep im minW minH (k div ?w) (k mod ?w) st)"
    if "visited ! k \<or> isTransparent ?d k" "k \<noteq> ?s1" "k \<noteq> ?s2"
  proof -
    have e: "islandStep im minW minH (k div ?w) (k mod ?w) st = st"
      unfolding st by (rule islandStep_skip[OF w that(1)])
    have eqs: "(Suc k \<le> ?s1) = (k \<le> ?s1)" "(Suc k \<le> ?s2) = (k \<le> ?s2)"
      using that(2,3) by linarith+
    show ?thesis
      unfolding e scanState_def Let_def eqs using inv unfolding scanState_def Let_def .
  qed
  consider (before) "k < ?s1" | (first) "k = ?s1" | (between) "?s1 < k" "k < ?s2"
    | (second) "k = ?s2" | (after) "?s2 < k"
    by linarith
  then show ?thesis
  proof cases
    case before
    have "k \<notin> ?S1" using squareSet_min[of k ?w ?N x1 y1] before by linarith
    moreover have "k \<notin> ?S2" using squareSet_min[of k ?w ?N x2 y2] before s12 by linarith
    ultimately have "isTransparent ?d k" using si[OF k] by blast
    then show ?thesis using skip before s12 by simp
  next
    case between
    have vis: "visited ! k \<longleftrightarrow> k \<in> ?S1"
      using inv between k unfolding scanState_def Let_def st by simp
    have "k \<notin> ?S2" using squareSet_min[of k ?w ?N x2 y2] between by linarith
    then have "visited ! k \<or> isTransparent ?d k" using si[OF k] vis by blast
    then show ?thesis using skip between by simp
  next
    case after
    have vis: "visited ! k \<longleftrightarrow> k \<in> ?S1 \<or> k \<in> ?S2"
      using inv after s12 k unfolding scanState_def Let_def st by simp
    then have "visited ! k \<or> isTransparent ?d k" using si[OF k] by blast
    then show ?thesis using skip after s12 by simp
  next
    case first
    from inv first have un: "\<forall>i < ?N. \<not> visited ! i" and r: "rects = []" "idc = 0"
      unfolding scanState_def Let_def st by simp_all
    have nv: "\<not> visited ! k" using un k by blast
    have sol: "\<not> isTransparent ?d k" using si[OF k] p1(4) first by simp
    have fresh: "\<forall>i \<in> ?S1. \<not> visited ! i" using un unfolding squareSet_def by simp
    obtain visited' box' where run:
      "floodFill ?w ?d [?s1] (visited[?s1 := True]) (int x1, int x1, int y1, int y1) = (visited', box')"
      by (cases "floodFill ?w ?d [?s1] (visited[?s1 := True]) (int x1, int x1, int y1, int y1)") auto
    note sf = square_fill[OF in1 comp(1) len fresh run]
    have run': "floodFill ?w ?d [k] (visited[k := True])
           (int (k mod ?w), int (k mod ?w), int (k div ?w), int (k div ?w))
         = (visited', int x1, int x1 + 2, int y1, int y1 + 2)"
      using run sf(3) p1(1,2) unfolding first by simp
    have v': "\<forall>i < ?N. visited' ! i \<longleftrightarrow> i \<in> ?S1" using sf(2) un by blast
    have nxt: "\<not> Suc k \<le> ?s1" "Suc k \<le> ?s2" using first s12 by linarith+
    show ?thesis
      unfolding st islandStep_fill[OF nv sol run'] scanState_def Let_def
      using nxt sf(1) v' r by (simp add: showNat_small)
  next
    case second
    from inv second s12 have vis: "\<forall>i < ?N. visited ! i \<longleftrightarrow> i \<in> ?S1"
      and r: "if minW \<le> 3 \<and> minH \<le> 3
              then rects = [\<lparr>rectId = ''island-0'', rectX = int x1, rectY = int y1, rectW = 3, rectH = 3\<rparr>] \<and> idc = 1
              else rects = [] \<and> idc = 0"
      unfolding scanState_def Let_def st by simp_all
    have kS2: "k \<in> ?S2" using p2(4) second by simp
    have nv: "\<not> visited ! k" using vis k squareSet_disjoint[OF sep', OF kS2] by blast
    have sol: "\<not> isTransparent ?d k" using si[OF k] kS2 by simp
    have fresh: "\<forall>i \<in> ?S2. \<not> visited ! i"
    proof
      fix i assume i: "i \<in> ?S2"
      then have "i < ?N" unfolding squareSet_def by simp
      with vis squareSet_disjoint[OF sep', OF i] show "\<not> visited ! i" by blast
    qed
    obtain visited' box' where run:
      "floodFill ?w ?d [?s2] (visited[?s2 := True]) (int x2, int x2, int y2, int y2) = (visited', box')"
      by (cases "floodFill ?w ?d [?s2] (visited[?s2 := True]) (int x2, int x2, int y2, int y2)") auto
    note sf = square_fill[OF in2 comp(2) len fresh run]
    have run': "floodFill ?w ?d [k] (visited[k := True])
           (int (k mod ?w), int (k mod ?w), int (k div ?w), int (k div ?w))
         = (visited', int x2, int x2 + 2, int y2, int y2 + 2)"
      using run sf(3) p2(1,2) unfolding second by simp
    have v': "\<forall>i < ?N. visited' ! i \<longleftrightarrow> i \<in> ?S1 \<or> i \<in> ?S2" using sf(2) vis by blast
    have nxt: "\<not> Suc k \<le> ?s1" "\<not> Suc k \<le> ?s2" using second s12 by linarith+
    show ?thesis
      unfolding st islandStep_fill[OF nv sol run'] scanState_def Let_def
      using nxt sf(1) v' r by (auto simp: showNat_small)
  qed
qed

lemma scan_all:
  assumes ts: "twoOpaqueSquares im x1 y1 x2 y2"
    and ord: "y1 < y2 \<or> (y1 = y2 \<and> x1 < x2)"
  shows "k \<le> imageData.width im * imageData.height im \<Longrightarrow>
         scanState im x1 y1 x2 y2 minW minH k
           (fold (\<lambda>k. islandStep im minW minH (k div imageData.width im) (k mod imageData.width im))
              [0..<k]
              (replicate (imageData.width im * imageData.height im) False, [], 0))"
proof (induction k)
  case 0
  show ?case unfolding scanState_def Let_def by simp
next
  case (Suc k)
  then have k: "k < imageData.width im * imageData.height im" by simp
  from Suc.IH k have ih: "scanState im x1 y1 x2 y2 minW minH k
           (fold (\<lambda>k. islandStep im minW minH (k div imageData.width im) (k mod imageData.width im))
              [0..<k]
              (replicate (imageData.width im * imageData.height im) False, [], 0))"
    by simp
  from scan_step[OF ts ord k ih] show ?case by simp
qed

lemma detectIslands_squares:
  assumes ts: "twoOpaqueSquares im x1 y1 x2 y2"
    and ord: "y1 < y2 \<or> (y1 = y2 \<and> x1 < x2)"
  shows "detectIslands im minW minH =
           (if minW \<le> 3 \<and> minH \<le> 3
            then [\<lparr>rectId = ''island-0'', rectX = int x1, rectY = int y1, rectW = 3, rectH = 3\<rparr>,
                  \<lparr>rectId = ''island-1'', rectX = int x2, rectY = int y2, rectW = 3, rectH = 3\<rparr>]
            else [])"
proof -
  let ?w = "imageData.width im" and ?h = "imageData.height im"
  let ?st = "fold (\<lambda>k. islandStep im minW minH (k div ?w) (k mod ?w)) [0..<?w * ?h]
              (replicate (?w * ?h) False, [], 0)"
  from ts have in2: "x2 + 3 \<le> ?w" "y2 + 3 \<le> ?h"
    and in1: "x1 + 3 \<le> ?w"
    unfolding twoOpaqueSquares_def by auto
  have s2: "y2 * ?w + x2 < ?w * ?h" using point_facts(3)[OF in2, of 0 0] by simp
  have s12: "y1 * ?w + x1 < y2 * ?w + x2" using corner_order[OF ord] in1 by simp
  have fin: "scanState im x1 y1 x2 y2 minW minH (?w * ?h) ?st"
    by (rule scan_all[OF ts ord]) simp
  have d: "detectIslands im minW minH = fst (snd ?st)"
    unfolding detectIslands_def fold_rows[of "islandStep im minW minH" ?w ?h]
    by (simp add: case_prod_unfold)
  obtain visited rects idc where st: "?st = (visited, rects, idc)" by (cases ?st) auto
  have "rects = (if minW \<le> 3 \<and> minH \<le> 3
            then [\<lparr>rectId = ''island-0'', rectX = int x1, rectY = int y1, rectW = 3, rectH = 3\<rparr>,
                  \<lparr>rectId = ''island-1'', rectX = int x2, rectY = int y2, rectW = 3, rectH = 3\<rparr>]
            else [])"
    using fin s2 s12 unfolding st scanState_def Let_def by (auto split: if_splits)
  then show ?thesis unfolding d st by simp
qed

text \<open>
  Claim C4. For every well-formed buffer whose non-transparent pixels are exactly two 3 by 3
  squares, apart from each other (a transparent column or row between them, or a common
  corner at most), \<^verbatim>\<open>detectIslands\<close> with
  minimum width 1 and minimum height 1 returns exactly two rectangles, of width 3 and
  height 3, at the corners of the two squares, the square met first by the row-major scan
  first, with the ids island-0 and island-1; with minimum width 4 it returns the empty
  list, whatever the minimum height.
\<close>

theorem detectIslands_two_squares:
  assumes "twoOpaqueSquares im x1 y1 x2 y2"
    and "y1 < y2 \<or> (y1 = y2 \<and> x1 < x2)"
  shows "detectIslands im 1 1 =
           [\<lparr>rectId = ''island-0'', rectX = int x1, rectY = int y1, rectW = 3, rectH = 3\<rparr>,
            \<lparr>rectId = ''island-1'', rectX = int x2, rectY = int y2, rectW = 3, rectH = 3\<rparr>] \<and>
         detectIslands im 4 minH = []"
  using detectIslands_squares[OF assms, of 1 1] detectIslands_squares[OF assms, of 4 minH]
  by simp

lemma twoSquaresImage_ok: "twoOpaqueSquares twoSquaresImage 0 0 4 0"
  by (simp add: twoOpaqueSquares_def squaresApart_def twoSquaresImage_def inSquare_def Let_def
      lessThan_nat_numeral)

theorem detectIslands_two_squares_witness:
  "twoOpaqueSquares twoSquaresImage 0 0 4 0 \<and>
   detectIslands twoSquaresImage 1 1 =
     [\<lparr>rectId = ''island-0'', rectX = 0, rectY = 0, rectW = 3, rectH = 3\<rparr>,
      \<lparr>rectId = ''island-1'', rectX = 4, rectY = 0, rectW = 3, rectH = 3\<rparr>] \<and>
   detectIslands twoSquaresImage 4 1 = []"
proof -
  have ord: "(0::nat) < 0 \<or> ((0::nat) = 0 \<and> (0::nat) < 4)" by simp
  from detectIslands_two_squares[OF twoSquaresImage_ok ord, of 1] twoSquaresImage_ok
  show ?thesis by simp
qed

section \<open>The scans on the heap\<close>

text \<open>
  The heap during \<^verbatim>\<open>detectIslands\<close> is the heap \<open>H\<close> of the call plus the array
  \<^verbatim>\<open>visited\<close>, which is the last one. Reads and writes on such a heap.
\<close>

lemma heap_read_old:
  assumes "d < length H"
  shows "readAt (H @ [vis]) d i = (if i < length (H ! d) then Some (H ! d ! i) else None)"
  using assms by (simp add: readAt_def arrayLength_def nth_append)

lemma heap_read_new:
  "readAt (H @ [vis]) (length H) i = (if i < length vis then Some (vis ! i) else None)"
  by (simp add: readAt_def arrayLength_def)

lemma heap_length_new: "arrayLength (H @ [vis]) (length H) = length vis"
  by (simp add: arrayLength_def)

lemma heap_write_new: "writeAt (H @ [vis]) (length H) i x = H @ [vis[i := x]]"
  by (simp add: writeAt_def arrayLength_def list_update_beyond)

lemma transparent_read:
  assumes "d < length H"
  shows "(readAt (H @ [vis]) d (idx * 4 + 3) = Some 0) = isTransparent (H ! d) idx"
  using assms by (simp add: heap_read_old isTransparent_def)

text \<open>
  Each step on the heap writes \<^verbatim>\<open>visited\<close> only, and does what the step on the image
  does when the non-zero elements of \<^verbatim>\<open>visited\<close> are read as the visited positions.
\<close>

lemma visitNeighborH_sim:
  assumes "d < length H"
  shows "\<exists>vis'. visitNeighborH d (length H) n (stack, H @ [vis]) =
           (fst (visitNeighbor (H ! d) n (stack, map (\<lambda>b. b \<noteq> 0) vis)), H @ [vis']) \<and>
         map (\<lambda>b. b \<noteq> 0) vis' = snd (visitNeighbor (H ! d) n (stack, map (\<lambda>b. b \<noteq> 0) vis)) \<and>
         length vis' = length vis"
proof (cases "n \<ge> 0 \<and> n < int (length vis) \<and> vis ! nat n = 0 \<and> \<not> isTransparent (H ! d) (nat n)")
  case True
  then have i: "nat n < length vis" by linarith
  have "visitNeighborH d (length H) n (stack, H @ [vis]) = (nat n # stack, H @ [vis[nat n := 1]])"
    using True i
    by (simp add: visitNeighborH_def heap_length_new heap_read_new heap_write_new
        transparent_read[OF assms])
  moreover have "visitNeighbor (H ! d) n (stack, map (\<lambda>b. b \<noteq> 0) vis) =
      (nat n # stack, (map (\<lambda>b. b \<noteq> 0) vis)[nat n := True])"
    using True i by (simp add: visitNeighbor_def)
  moreover have "map (\<lambda>b. b \<noteq> 0) (vis[nat n := 1]) = (map (\<lambda>b. b \<noteq> 0) vis)[nat n := True]"
    by (simp add: map_update)
  ultimately show ?thesis by simp
next
  case False
  have "visitNeighborH d (length H) n (stack, H @ [vis]) = (stack, H @ [vis])"
    using False
    by (auto simp: visitNeighborH_def heap_length_new heap_read_new transparent_read[OF assms])
  moreover have "visitNeighbor (H ! d) n (stack, map (\<lambda>b. b \<noteq> 0) vis) =
      (stack, map (\<lambda>b. b \<noteq> 0) vis)"
    using False by (auto simp: visitNeighbor_def)
  ultimately show ?thesis by simp
qed

lemma visitNeighborsH_sim:
  assumes "d < length H"
  shows "\<exists>vis'. fold (visitNeighborH d (length H)) ns (stack, H @ [vis]) =
           (fst (fold (visitNeighbor (H ! d)) ns (stack, map (\<lambda>b. b \<noteq> 0) vis)), H @ [vis']) \<and>
         map (\<lambda>b. b \<noteq> 0) vis' = snd (fold (visitNeighbor (H ! d)) ns (stack, map (\<lambda>b. b \<noteq> 0) vis)) \<and>
         length vis' = length vis"
proof (induction ns arbitrary: stack vis)
  case Nil
  then show ?case by simp
next
  case (Cons n ns)
  from visitNeighborH_sim[OF assms, of n stack vis] obtain vis1 where
    1: "visitNeighborH d (length H) n (stack, H @ [vis]) =
           (fst (visitNeighbor (H ! d) n (stack, map (\<lambda>b. b \<noteq> 0) vis)), H @ [vis1])"
       "map (\<lambda>b. b \<noteq> 0) vis1 = snd (visitNeighbor (H ! d) n (stack, map (\<lambda>b. b \<noteq> 0) vis))"
       "length vis1 = length vis"
    by blast
  define stack1 where "stack1 = fst (visitNeighbor (H ! d) n (stack, map (\<lambda>b. b \<noteq> 0) vis))"
  have p: "visitNeighbor (H ! d) n (stack, map (\<lambda>b. b \<noteq> 0) vis) = (stack1, map (\<lambda>b. b \<noteq> 0) vis1)"
    unfolding stack1_def 1(2) by simp
  from Cons.IH[of stack1 vis1] obtain vis' where
    2: "fold (visitNeighborH d (length H)) ns (stack1, H @ [vis1]) =
           (fst (fold (visitNeighbor (H ! d)) ns (stack1, map (\<lambda>b. b \<noteq> 0) vis1)), H @ [vis'])"
       "map (\<lambda>b. b \<noteq> 0) vis' = snd (fold (visitNeighbor (H ! d)) ns (stack1, map (\<lambda>b. b \<noteq> 0) vis1))"
       "length vis' = length vis1"
    by blast
  have "fold (visitNeighborH d (length H)) (n # ns) (stack, H @ [vis]) =
          fold (visitNeighborH d (length H)) ns (stack1, H @ [vis1])"
    using 1(1) by (simp add: stack1_def)
  moreover have "fold (visitNeighbor (H ! d)) (n # ns) (stack, map (\<lambda>b. b \<noteq> 0) vis) =
          fold (visitNeighbor (H ! d)) ns (stack1, map (\<lambda>b. b \<noteq> 0) vis1)"
    using p by simp
  ultimately show ?case using 2 1(3) by (simp only:) blast
qed

lemma floodFillH_Cons:
  "floodFillH w d v (cur # stack) h box =
     floodFillH w d v (fst (fold (visitNeighborH d v) (neighbors w cur) (stack, h)))
       (snd (fold (visitNeighborH d v) (neighbors w cur) (stack, h))) (grow w cur box)"
  by (cases box) (simp add: floodFillH.simps grow_def Let_def)

lemma floodFillH_sim:
  assumes "d < length H"
  shows "\<exists>vis'. floodFillH w d (length H) stack (H @ [vis]) box =
           (H @ [vis'], snd (floodFill w (H ! d) stack (map (\<lambda>b. b \<noteq> 0) vis) box)) \<and>
         map (\<lambda>b. b \<noteq> 0) vis' = fst (floodFill w (H ! d) stack (map (\<lambda>b. b \<noteq> 0) vis) box) \<and>
         length vis' = length vis"
proof -
  have "\<forall>vis :: byte list. visited = map (\<lambda>b. b \<noteq> 0) vis \<longrightarrow>
          (\<exists>vis'. floodFillH w d (length H) stack (H @ [vis]) box =
             (H @ [vis'], snd (floodFill w (H ! d) stack visited box)) \<and>
           map (\<lambda>b. b \<noteq> 0) vis' = fst (floodFill w (H ! d) stack visited box) \<and>
           length vis' = length vis)" for visited
  proof (induction stack visited box rule: floodFill_steps[where w = w and d = "H ! d"])
    case (Nil visited box)
    show ?case by (simp add: floodFill_Nil floodFillH.simps)
  next
    case (Cons cur stack visited box)
    show ?case
    proof (intro allI impI)
      fix vis :: "byte list"
      assume v: "visited = map (\<lambda>b. b \<noteq> 0) vis"
      from visitNeighborsH_sim[OF assms, of "neighbors w cur" stack vis] obtain vis1 where
        1: "fold (visitNeighborH d (length H)) (neighbors w cur) (stack, H @ [vis]) =
             (fst (fold (visitNeighbor (H ! d)) (neighbors w cur) (stack, visited)), H @ [vis1])"
           "map (\<lambda>b. b \<noteq> 0) vis1 = snd (fold (visitNeighbor (H ! d)) (neighbors w cur) (stack, visited))"
           "length vis1 = length vis"
        unfolding v by blast
      from Cons[rule_format, OF 1(2)[symmetric]] obtain vis' where
        2: "floodFillH w d (length H)
              (fst (fold (visitNeighbor (H ! d)) (neighbors w cur) (stack, visited)))
              (H @ [vis1]) (grow w cur box) =
             (H @ [vis'], snd (floodFill w (H ! d)
                (fst (fold (visitNeighbor (H ! d)) (neighbors w cur) (stack, visited)))
                (snd (fold (visitNeighbor (H ! d)) (neighbors w cur) (stack, visited)))
                (grow w cur box)))"
           "map (\<lambda>b. b \<noteq> 0) vis' = fst (floodFill w (H ! d)
                (fst (fold (visitNeighbor (H ! d)) (neighbors w cur) (stack, visited)))
                (snd (fold (visitNeighbor (H ! d)) (neighbors w cur) (stack, visited)))
                (grow w cur box))"
           "length vis' = length vis1"
        by blast
      have a: "floodFillH w d (length H) (cur # stack) (H @ [vis]) box =
                 (H @ [vis'], snd (floodFill w (H ! d) (cur # stack) visited box))"
        unfolding floodFillH_Cons floodFill_Cons 1(1) fst_conv snd_conv by (rule 2(1))
      have b: "map (\<lambda>b. b \<noteq> 0) vis' = fst (floodFill w (H ! d) (cur # stack) visited box)"
        unfolding floodFill_Cons by (rule 2(2))
      have c: "length vis' = length vis" using 2(3) 1(3) by simp
      from a b c show "\<exists>vis'. floodFillH w d (length H) (cur # stack) (H @ [vis]) box =
             (H @ [vis'], snd (floodFill w (H ! d) (cur # stack) visited box)) \<and>
           map (\<lambda>b. b \<noteq> 0) vis' = fst (floodFill w (H ! d) (cur # stack) visited box) \<and>
           length vis' = length vis"
        by blast
    qed
  qed
  then show ?thesis by blast
qed

text \<open>The state of the scan on the heap and the state of the scan on the image.\<close>

lemma islandStepH_sim:
  assumes d: "refData ref < length H" and i: "y * refWidth ref + x < length vis"
  shows "\<exists>vis'. islandStepH ref (length H) minW minH y x (H @ [vis], rects, idc) =
           (H @ [vis'],
            snd (islandStep (imageAt H ref) minW minH y x (map (\<lambda>b. b \<noteq> 0) vis, rects, idc))) \<and>
         map (\<lambda>b. b \<noteq> 0) vis' =
            fst (islandStep (imageAt H ref) minW minH y x (map (\<lambda>b. b \<noteq> 0) vis, rects, idc)) \<and>
         length vis' = length vis"
proof -
  let ?idx = "y * refWidth ref + x"
  let ?vd = "map (\<lambda>b. b \<noteq> 0) vis"
  have im: "imageData.width (imageAt H ref) = refWidth ref" "data (imageAt H ref) = H ! refData ref"
    by (simp_all add: imageAt_def)
  have seen: "(case readAt (H @ [vis]) (length H) ?idx of None \<Rightarrow> False | Some b \<Rightarrow> b \<noteq> 0)
                = ?vd ! ?idx"
    using i by (simp add: heap_read_new)
  show ?thesis
  proof (cases "?vd ! ?idx \<or> isTransparent (H ! refData ref) ?idx")
    case True
    have "islandStepH ref (length H) minW minH y x (H @ [vis], rects, idc) = (H @ [vis], rects, idc)"
      using True unfolding islandStepH_def Let_def prod.case seen transparent_read[OF d] by simp
    moreover have "islandStep (imageAt H ref) minW minH y x (?vd, rects, idc) = (?vd, rects, idc)"
      using True unfolding islandStep_def Let_def prod.case im by simp
    ultimately show ?thesis by simp
  next
    case False
    let ?box = "(int x, int x, int y, int y)"
    have u: "?vd[?idx := True] = map (\<lambda>b. b \<noteq> 0) (vis[?idx := 1])" by (simp add: map_update)
    from floodFillH_sim[OF d, of "refWidth ref" "[?idx]" "vis[?idx := 1]" ?box] obtain vis' where
      f: "floodFillH (refWidth ref) (refData ref) (length H) [?idx] (H @ [vis[?idx := 1]]) ?box =
            (H @ [vis'], snd (floodFill (refWidth ref) (H ! refData ref) [?idx] (?vd[?idx := True]) ?box))"
         "map (\<lambda>b. b \<noteq> 0) vis' =
            fst (floodFill (refWidth ref) (H ! refData ref) [?idx] (?vd[?idx := True]) ?box)"
         "length vis' = length vis"
      unfolding u by auto
    obtain vp minX maxX minY maxY where
      p: "floodFill (refWidth ref) (H ! refData ref) [?idx] (?vd[?idx := True]) ?box =
            (vp, minX, maxX, minY, maxY)"
      by (metis prod_cases5)
    have vp: "map (\<lambda>b. b \<noteq> 0) vis' = vp" using f(2) p by simp
    have fh: "floodFillH (refWidth ref) (refData ref) (length H) [?idx]
                (writeAt (H @ [vis]) (length H) ?idx 1) ?box =
              (H @ [vis'], minX, maxX, minY, maxY)"
      unfolding heap_write_new using f(1) p by simp
    have "islandStepH ref (length H) minW minH y x (H @ [vis], rects, idc) =
            (if minW \<le> maxX - minX + 1 \<and> minH \<le> maxY - minY + 1
             then (H @ [vis'],
                   rects @ [\<lparr>rectId = ''island-'' @ showNat idc, rectX = minX, rectY = minY,
                              rectW = maxX - minX + 1, rectH = maxY - minY + 1\<rparr>],
                   Suc idc)
             else (H @ [vis'], rects, idc))"
      using False unfolding islandStepH_def Let_def prod.case seen transparent_read[OF d] fh by simp
    moreover have "islandStep (imageAt H ref) minW minH y x (?vd, rects, idc) =
            (if minW \<le> maxX - minX + 1 \<and> minH \<le> maxY - minY + 1
             then (vp,
                   rects @ [\<lparr>rectId = ''island-'' @ showNat idc, rectX = minX, rectY = minY,
                              rectW = maxX - minX + 1, rectH = maxY - minY + 1\<rparr>],
                   Suc idc)
             else (vp, rects, idc))"
      using False unfolding islandStep_def Let_def prod.case im p by simp
    ultimately show ?thesis using vp f(3) by simp
  qed
qed

lemma islandRowH_sim:
  assumes d: "refData ref < length H"
    and i: "\<forall>x \<in> set xs. y * refWidth ref + x < length vis"
  shows "\<exists>vis'. fold (islandStepH ref (length H) minW minH y) xs (H @ [vis], rects, idc) =
           (H @ [vis'],
            snd (fold (islandStep (imageAt H ref) minW minH y) xs (map (\<lambda>b. b \<noteq> 0) vis, rects, idc))) \<and>
         map (\<lambda>b. b \<noteq> 0) vis' =
            fst (fold (islandStep (imageAt H ref) minW minH y) xs (map (\<lambda>b. b \<noteq> 0) vis, rects, idc)) \<and>
         length vis' = length vis"
  using i
proof (induction xs arbitrary: vis rects idc)
  case Nil
  then show ?case by simp
next
  case (Cons x xs)
  have ix: "y * refWidth ref + x < length vis" using Cons.prems by simp
  from islandStepH_sim[OF d ix, of minW minH rects idc] obtain vis1 where
    1: "islandStepH ref (length H) minW minH y x (H @ [vis], rects, idc) =
           (H @ [vis1],
            snd (islandStep (imageAt H ref) minW minH y x (map (\<lambda>b. b \<noteq> 0) vis, rects, idc)))"
       "map (\<lambda>b. b \<noteq> 0) vis1 =
            fst (islandStep (imageAt H ref) minW minH y x (map (\<lambda>b. b \<noteq> 0) vis, rects, idc))"
       "length vis1 = length vis"
    by blast
  obtain rects1 idc1 where
    r: "snd (islandStep (imageAt H ref) minW minH y x (map (\<lambda>b. b \<noteq> 0) vis, rects, idc)) = (rects1, idc1)"
    by (metis surj_pair)
  have p: "islandStep (imageAt H ref) minW minH y x (map (\<lambda>b. b \<noteq> 0) vis, rects, idc) =
             (map (\<lambda>b. b \<noteq> 0) vis1, rects1, idc1)"
    using 1(2) r by (metis prod.collapse)
  have "\<forall>x \<in> set xs. y * refWidth ref + x < length vis1" using Cons.prems 1(3) by simp
  from Cons.IH[OF this, of rects1 idc1] obtain vis' where
    2: "fold (islandStepH ref (length H) minW minH y) xs (H @ [vis1], rects1, idc1) =
           (H @ [vis'],
            snd (fold (islandStep (imageAt H ref) minW minH y) xs (map (\<lambda>b. b \<noteq> 0) vis1, rects1, idc1)))"
       "map (\<lambda>b. b \<noteq> 0) vis' =
            fst (fold (islandStep (imageAt H ref) minW minH y) xs (map (\<lambda>b. b \<noteq> 0) vis1, rects1, idc1))"
       "length vis' = length vis1"
    by blast
  have "fold (islandStepH ref (length H) minW minH y) (x # xs) (H @ [vis], rects, idc) =
          fold (islandStepH ref (length H) minW minH y) xs (H @ [vis1], rects1, idc1)"
    using 1(1) r by simp
  moreover have "fold (islandStep (imageAt H ref) minW minH y) (x # xs) (map (\<lambda>b. b \<noteq> 0) vis, rects, idc) =
          fold (islandStep (imageAt H ref) minW minH y) xs (map (\<lambda>b. b \<noteq> 0) vis1, rects1, idc1)"
    using p by simp
  ultimately show ?case using 2 1(3) by (simp only:) blast
qed

lemma islandScanH_sim:
  assumes d: "refData ref < length H"
    and i: "\<forall>y \<in> set ys. \<forall>x \<in> set xs. y * refWidth ref + x < length vis"
  shows "\<exists>vis'. fold (\<lambda>y. fold (islandStepH ref (length H) minW minH y) xs) ys (H @ [vis], rects, idc) =
           (H @ [vis'],
            snd (fold (\<lambda>y. fold (islandStep (imageAt H ref) minW minH y) xs) ys
                   (map (\<lambda>b. b \<noteq> 0) vis, rects, idc))) \<and>
         length vis' = length vis"
  using i
proof (induction ys arbitrary: vis rects idc)
  case Nil
  then show ?case by simp
next
  case (Cons y ys)
  have iy: "\<forall>x \<in> set xs. y * refWidth ref + x < length vis" using Cons.prems by simp
  from islandRowH_sim[OF d iy, of minW minH rects idc] obtain vis1 where
    1: "fold (islandStepH ref (length H) minW minH y) xs (H @ [vis], rects, idc) =
           (H @ [vis1],
            snd (fold (islandStep (imageAt H ref) minW minH y) xs (map (\<lambda>b. b \<noteq> 0) vis, rects, idc)))"
       "map (\<lambda>b. b \<noteq> 0) vis1 =
            fst (fold (islandStep (imageAt H ref) minW minH y) xs (map (\<lambda>b. b \<noteq> 0) vis, rects, idc))"
       "length vis1 = length vis"
    by blast
  obtain rects1 idc1 where
    r: "snd (fold (islandStep (imageAt H ref) minW minH y) xs (map (\<lambda>b. b \<noteq> 0) vis, rects, idc))
          = (rects1, idc1)"
    by (metis surj_pair)
  have p: "fold (islandStep (imageAt H ref) minW minH y) xs (map (\<lambda>b. b \<noteq> 0) vis, rects, idc) =
             (map (\<lambda>b. b \<noteq> 0) vis1, rects1, idc1)"
    using 1(2) r by (metis prod.collapse)
  have "\<forall>y \<in> set ys. \<forall>x \<in> set xs. y * refWidth ref + x < length vis1"
    using Cons.prems 1(3) by simp
  from Cons.IH[OF this, of rects1 idc1] obtain vis' where
    2: "fold (\<lambda>y. fold (islandStepH ref (length H) minW minH y) xs) ys (H @ [vis1], rects1, idc1) =
           (H @ [vis'],
            snd (fold (\<lambda>y. fold (islandStep (imageAt H ref) minW minH y) xs) ys
                   (map (\<lambda>b. b \<noteq> 0) vis1, rects1, idc1)))"
       "length vis' = length vis1"
    by blast
  have "fold (\<lambda>y. fold (islandStepH ref (length H) minW minH y) xs) (y # ys) (H @ [vis], rects, idc) =
          fold (\<lambda>y. fold (islandStepH ref (length H) minW minH y) xs) ys (H @ [vis1], rects1, idc1)"
    using 1(1) r by simp
  moreover have "fold (\<lambda>y. fold (islandStep (imageAt H ref) minW minH y) xs) (y # ys)
                   (map (\<lambda>b. b \<noteq> 0) vis, rects, idc) =
          fold (\<lambda>y. fold (islandStep (imageAt H ref) minW minH y) xs) ys
                   (map (\<lambda>b. b \<noteq> 0) vis1, rects1, idc1)"
    using p by simp
  ultimately show ?case using 2 1(3) by (simp only:) blast
qed

lemma detectIslandsH_sim:
  assumes d: "refData ref < length H"
  shows "fst (detectIslandsH H ref minW minH) = detectIslands (imageAt H ref) minW minH"
    and "\<exists>visited. snd (detectIslandsH H ref minW minH) = H @ [visited]"
proof -
  let ?w = "refWidth ref" and ?h = "refHeight ref"
  let ?vis = "replicate (?w * ?h) (0::byte)"
  have i: "\<forall>y \<in> set [0..<?h]. \<forall>x \<in> set [0..<?w]. y * ?w + x < length ?vis"
  proof (intro ballI)
    fix y x assume "y \<in> set [0..<?h]" "x \<in> set [0..<?w]"
    then have "y < ?h" "x < ?w" by simp_all
    then have "y * ?w + x < Suc y * ?w" "Suc y \<le> ?h" by simp_all
    then have "y * ?w + x < ?h * ?w" by (meson less_le_trans mult_le_mono1)
    then show "y * ?w + x < length ?vis" by (simp add: mult.commute)
  qed
  from islandScanH_sim[OF d i, of minW minH "[]" 0] obtain vis' where
    s: "fold (\<lambda>y. fold (islandStepH ref (length H) minW minH y) [0..<?w]) [0..<?h] (H @ [?vis], [], 0) =
           (H @ [vis'],
            snd (fold (\<lambda>y. fold (islandStep (imageAt H ref) minW minH y) [0..<?w]) [0..<?h]
                   (map (\<lambda>b. b \<noteq> 0) ?vis, [], 0)))"
    by blast
  have m: "map (\<lambda>b. b \<noteq> 0) ?vis = replicate (?w * ?h) False" by simp
  obtain vp rects idc where
    p: "fold (\<lambda>y. fold (islandStep (imageAt H ref) minW minH y) [0..<?w]) [0..<?h]
          (replicate (?w * ?h) False, [], 0) = (vp, rects, idc)"
    by (metis prod_cases3)
  have dh: "detectIslandsH H ref minW minH = (rects, H @ [vis'])"
    unfolding detectIslandsH_def alloc_def using s p unfolding m by simp
  have dp: "detectIslands (imageAt H ref) minW minH = rects"
    unfolding detectIslands_def using p by (simp add: imageAt_def)
  show "fst (detectIslandsH H ref minW minH) = detectIslands (imageAt H ref) minW minH"
    using dh dp by simp
  show "\<exists>visited. snd (detectIslandsH H ref minW minH) = H @ [visited]"
    using dh by simp
qed

lemma boundsStepH_sim:
  assumes "refData ref < length h"
  shows "boundsStepH ref y x (h, s) = (h, boundsStep (imageAt h ref) y x s)"
proof -
  have r: "readAt h (refData ref) k =
      (if k < length (h ! refData ref) then Some (h ! refData ref ! k) else None)" for k
    using assms by (simp add: readAt_def arrayLength_def)
  obtain minX minY maxX maxY where s: "s = (minX, minY, maxX, maxY)" by (cases s) auto
  show ?thesis
    unfolding s boundsStepH_def boundsStep_def Let_def prod.case r imageAt_def
    by simp
qed

lemma boundsRowH_sim:
  assumes "refData ref < length h"
  shows "fold (boundsStepH ref y) xs (h, s) = (h, fold (boundsStep (imageAt h ref) y) xs s)"
  by (induction xs arbitrary: s) (simp_all add: boundsStepH_sim[OF assms])

lemma boundsScanH_sim:
  assumes "refData ref < length h"
  shows "fold (\<lambda>y. fold (boundsStepH ref y) xs) ys (h, s) =
           (h, fold (\<lambda>y. fold (boundsStep (imageAt h ref) y) xs) ys s)"
  by (induction ys arbitrary: s) (simp_all add: boundsRowH_sim[OF assms])

lemma getTrimmedBoundsH_sim:
  assumes "refData ref < length h"
  shows "getTrimmedBoundsH h ref = (getTrimmedBounds (imageAt h ref), h)"
proof -
  obtain minX minY maxX maxY where
    p: "fold (\<lambda>y. fold (boundsStep (imageAt h ref) y) [0..<refWidth ref]) [0..<refHeight ref]
          (int (refWidth ref), int (refHeight ref), - 1, - 1) = (minX, minY, maxX, maxY)"
    by (metis prod_cases4)
  show ?thesis
    unfolding getTrimmedBoundsH_def getTrimmedBounds_def boundsScanH_sim[OF assms]
    using p by (simp add: imageAt_def)
qed

text \<open>
  Claim C7. \<^verbatim>\<open>applyColorKeyToImageData\<close> leaves the width, the height, the length of the
  buffer and the R, G and B bytes of every pixel as they were. On a heap that holds the
  pixel array of the image, \<^verbatim>\<open>getTrimmedBounds\<close> returns the heap it was given, and
  \<^verbatim>\<open>detectIslands\<close> returns that heap followed by one new array, its \<^verbatim>\<open>visited\<close>
  array: every array that existed before the call, the pixel array among them, holds what
  it held. Both return what the functions of the image return.
\<close>

theorem colorKey_writes_alpha_only:
  "imageData.width (applyColorKeyToImageData im target tol f) = imageData.width im \<and>
   imageData.height (applyColorKeyToImageData im target tol f) = imageData.height im \<and>
   length (data (applyColorKeyToImageData im target tol f)) = length (data im) \<and>
   (\<forall>p k. k < 3 \<and> 4 * p + k < length (data im) \<longrightarrow>
      data (applyColorKeyToImageData im target tol f) ! (4 * p + k) = data im ! (4 * p + k)) \<and>
   (refData ref < length h \<longrightarrow>
      getTrimmedBoundsH h ref = (getTrimmedBounds (imageAt h ref), h) \<and>
      fst (detectIslandsH h ref minW minH) = detectIslands (imageAt h ref) minW minH \<and>
      (\<exists>visited. snd (detectIslandsH h ref minW minH) = h @ [visited]))"
proof (intro conjI allI impI)
  show "imageData.width (applyColorKeyToImageData im target tol f) = imageData.width im"
    by (simp add: applyColorKeyToImageData_def Let_def)
  show "imageData.height (applyColorKeyToImageData im target tol f) = imageData.height im"
    by (simp add: applyColorKeyToImageData_def Let_def)
  show "length (data (applyColorKeyToImageData im target tol f)) = length (data im)"
    by (rule applyColorKey_length)
next
  fix p k :: nat
  assume h: "k < 3 \<and> 4 * p + k < length (data im)"
  have "(4 * p + k) mod 4 = k mod 4" by (rule mod_mult_self4)
  with h have "(4 * p + k) mod 4 \<noteq> 3" by simp
  with h show "data (applyColorKeyToImageData im target tol f) ! (4 * p + k) = data im ! (4 * p + k)"
    by (intro applyColorKey_other) simp_all
next
  assume d: "refData ref < length h"
  show "getTrimmedBoundsH h ref = (getTrimmedBounds (imageAt h ref), h)"
    by (rule getTrimmedBoundsH_sim[OF d])
  show "fst (detectIslandsH h ref minW minH) = detectIslands (imageAt h ref) minW minH"
    by (rule detectIslandsH_sim(1)[OF d])
  show "\<exists>visited. snd (detectIslandsH h ref minW minH) = h @ [visited]"
    by (rule detectIslandsH_sim(2)[OF d])
qed

theorem colorKey_writes_alpha_only_witness:
  "(0::nat) < 3 \<and> 4 * 0 + 0 < length (data reddishPixel) \<and>
   data (applyColorKeyToImageData reddishPixel black (Fin 10) (Fin 10)) ! (4 * 0 + 0) = 15 \<and>
   refData pixelRef < length pixelHeap \<and>
   snd (getTrimmedBoundsH pixelHeap pixelRef) = pixelHeap \<and>
   (\<exists>visited. snd (detectIslandsH pixelHeap pixelRef 1 1) = pixelHeap @ [visited])"
proof -
  have a: "(0::nat) < 3 \<and> 4 * 0 + 0 < length (data reddishPixel)" by (simp add: reddishPixel_def)
  have d: "refData pixelRef < length pixelHeap" by (simp add: pixelRef_def pixelHeap_def)
  note th = colorKey_writes_alpha_only[of reddishPixel black "Fin 10" "Fin 10" pixelRef pixelHeap 1 1]
  from th[THEN conjunct2, THEN conjunct2, THEN conjunct2, THEN conjunct1, rule_format, OF a]
  have 1: "data (applyColorKeyToImageData reddishPixel black (Fin 10) (Fin 10)) ! (4 * 0 + 0) = 15"
    by (simp add: reddishPixel_def)
  from th[THEN conjunct2, THEN conjunct2, THEN conjunct2, THEN conjunct2, THEN mp, OF d]
  have 2: "snd (getTrimmedBoundsH pixelHeap pixelRef) = pixelHeap"
    "\<exists>visited. snd (detectIslandsH pixelHeap pixelRef 1 1) = pixelHeap @ [visited]"
    by simp_all
  from a d 1 2 show ?thesis by blast
qed

end
